theory Spec2Isabelle
  imports Main "HOL-Library.Multiset"
begin

section \<open>Data model\<close>

text \<open>
  The TypeScript types \<^verbatim>\<open>Suit\<close> and \<^verbatim>\<open>Card\<close> of \<^verbatim>\<open>mod.ts\<close>.  A JavaScript string is a
  list of characters, one \<^typ>\<open>char\<close> per code unit; the glyph strings of the \<^verbatim>\<open>utf\<close>
  field lie outside that range and are kept as their UTF-8 bytes, since the program only
  stores and copies them.

  A JavaScript number is a double.  The numbers the program handles have integer values or
  come out of \<^verbatim>\<open>parseInt\<close>, so a number is \<open>Num n\<close> for an integer \<open>n\<close>, not-a-number, or one of
  the two infinities.  \<open>Num n\<close> stands for a number of the language only when \<open>n\<close> is one of the
  doubles (\<open>is_number\<close> below); positive and negative zero are the one value \<open>Num 0\<close>, they
  print alike and are equal under \<^verbatim>\<open>===\<close>.

  \<^verbatim>\<open>parse\<close> builds its result with the cast \<^verbatim>\<open>as Card\<close>, which lets \<^verbatim>\<open>undefined\<close> through in the
  fields \<^verbatim>\<open>value\<close> and \<^verbatim>\<open>suit\<close>: at run time these two fields are optional, and \<open>None\<close> is
  \<^verbatim>\<open>undefined\<close>.
\<close>

datatype jsnum = Num int | NaN | PosInfinity | NegInfinity

record Suit =
  svalue :: string
  color :: string
  utf :: string

record Card =
  cid :: jsnum
  cvalue :: "string option"
  rank :: int
  suit :: "Suit option"

datatype error = TypeError

section \<open>The catalog\<close>

definition CARDS :: "string list" where
  "CARDS =
     ''2'' # ''3'' # ''4'' # ''5'' # ''6'' # ''7'' # ''8'' # ''9'' # ''10'' # ''J'' # ''Q'' # ''K'' #
     ''A'' # []"

definition CARDS_TEXT :: "(string \<times> string) list" where
  "CARDS_TEXT =
    [(''2'', ''Two''), (''3'', ''Three''), (''4'', ''Four''), (''5'', ''Five''), (''6'', ''Six''),
     (''7'', ''Seven''), (''8'', ''Eight''), (''9'', ''Nine''), (''10'', ''Ten''),
     (''J'', ''Jack''), (''Q'', ''Queen''), (''K'', ''King''), (''A'', ''Ace'')]"

definition SUITS :: "Suit list" where
  "SUITS =
    [\<lparr>svalue = ''S'', color = ''black'', utf = [CHR 0xE2, CHR 0x99, CHR 0xA0]\<rparr>,
     \<lparr>svalue = ''H'', color = ''red'', utf = [CHR 0xE2, CHR 0x99, CHR 0xA5]\<rparr>,
     \<lparr>svalue = ''D'', color = ''red'', utf = [CHR 0xE2, CHR 0x99, CHR 0xA6]\<rparr>,
     \<lparr>svalue = ''C'', color = ''black'', utf = [CHR 0xE2, CHR 0x99, CHR 0xA3]\<rparr>]"

definition SUITS_COLOR :: "string list" where
  "SUITS_COLOR = [''black'', ''red'', ''red'', ''black'']"

definition SUITS_UTF :: "string list" where
  "SUITS_UTF =
    [[CHR 0xE2, CHR 0x99, CHR 0xA0], [CHR 0xE2, CHR 0x99, CHR 0xA5],
     [CHR 0xE2, CHR 0x99, CHR 0xA6], [CHR 0xE2, CHR 0x99, CHR 0xA3]]"

definition SUITS_TEXT :: "(string \<times> string) list" where
  "SUITS_TEXT = [(''S'', ''Spades''), (''H'', ''Hearts''), (''D'', ''Diamonds''), (''C'', ''Clubs'')]"

definition BLANK_CARD_UTF :: string where
  "BLANK_CARD_UTF = [CHR 0xE2, CHR 0x98, CHR 0x85]"

section \<open>The deck instance\<close>

text \<open>
  The private fields \<^verbatim>\<open>deck\<close> and \<^verbatim>\<open>id\<close> of a \<^verbatim>\<open>Deck\<close>.  A method that writes a field takes the
  instance and returns it updated.  Arrays are values here; the sections on identity below
  take up what depends on which array or object is written.
\<close>

record Deck =
  deck :: "Card list"
  next_id :: int

text \<open>
  The two loops of the constructor.  \<open>fill_cards j i d\<close> is the inner loop from index \<open>i\<close>
  on, for the suit at index \<open>j\<close>; \<open>fill_suits j d\<close> is the outer loop from index \<open>j\<close> on.
  The reads \<^verbatim>\<open>Deck.CARDS[i]\<close> and \<^verbatim>\<open>Deck.SUITS[j]\<close> are in range under the loop guards.
\<close>

function fill_cards :: "nat \<Rightarrow> nat \<Rightarrow> Deck \<Rightarrow> Deck" where
  "fill_cards j i d =
     (if i < length CARDS
      then fill_cards j (i + 1)
             (d\<lparr>deck := deck d @
                   [\<lparr>cid = Num (next_id d), cvalue = Some (CARDS ! i),
                     rank = int i + 1, suit = Some (SUITS ! j)\<rparr>],
                 next_id := next_id d + 1\<rparr>)
      else d)"
  by pat_completeness auto
termination
  by (relation "measure (\<lambda>(j, i, d). length CARDS - i)") auto

declare fill_cards.simps [simp del]

function fill_suits :: "nat \<Rightarrow> Deck \<Rightarrow> Deck" where
  "fill_suits j d =
     (if j < length SUITS then fill_suits (j + 1) (fill_cards j 0 d) else d)"
  by pat_completeness auto
termination
  by (relation "measure (\<lambda>(j, d). length SUITS - j)") auto

declare fill_suits.simps [simp del]

text \<open>
  \<^verbatim>\<open>shuffle\<close> is the function of the package \<^verbatim>\<open>lodash.shuffle\<close>, which is not part of the
  repository: the constructor takes it as a parameter.
\<close>

definition new_Deck :: "(Card list \<Rightarrow> Card list) \<Rightarrow> bool \<Rightarrow> Deck" where
  "new_Deck shuffle preShuffle =
     (let d = fill_suits 0 \<lparr>deck = [], next_id = 0\<rparr>
      in if preShuffle then d\<lparr>deck := shuffle (deck d)\<rparr> else d)"

section \<open>Sorting\<close>

text \<open>
  \<^verbatim>\<open>Array.prototype.sort\<close> with a comparator \<open>cmp\<close>.  The language standard fixes its result
  for a consistent comparator: the elements in the order of the comparator, equal ones in
  their input order.  The engine's algorithm is not part of the repository; the insertion
  sort below computes that result.  \<open>cmp x y \<le> 0\<close> keeps \<open>x\<close> before \<open>y\<close>.
\<close>

fun insert_cmp :: "('a \<Rightarrow> 'a \<Rightarrow> int) \<Rightarrow> 'a \<Rightarrow> 'a list \<Rightarrow> 'a list" where
  "insert_cmp cmp x [] = [x]"
| "insert_cmp cmp x (y # ys) =
     (if cmp x y \<le> 0 then x # y # ys else y # insert_cmp cmp x ys)"

definition array_sort :: "('a \<Rightarrow> 'a \<Rightarrow> int) \<Rightarrow> 'a list \<Rightarrow> 'a list" where
  "array_sort cmp xs = foldr (insert_cmp cmp) xs []"

text \<open>\<^verbatim>\<open>sort(cards)\<close>: the comparator is \<^verbatim>\<open>(a, b) => b.rank - a.rank\<close>.\<close>

definition Deck_sort :: "Card list \<Rightarrow> Card list" where
  "Deck_sort cards = array_sort (\<lambda>a b. rank b - rank a) cards"

section \<open>Drawing\<close>

text \<open>
  \<^verbatim>\<open>Array.prototype.shift\<close> removes and returns the first element; on an empty array it
  returns \<^verbatim>\<open>undefined\<close> (\<open>None\<close>) and leaves the array empty.
\<close>

definition shift :: "'a list \<Rightarrow> 'a option \<times> 'a list" where
  "shift xs = (case xs of [] \<Rightarrow> (None, []) | x # rest \<Rightarrow> (Some x, rest))"

text \<open>
  The loop of \<^verbatim>\<open>getCards\<close>, from counter \<open>i\<close> on.  The cast \<^verbatim>\<open>as Card\<close> on the result of
  \<^verbatim>\<open>shift\<close> checks nothing, so \<^verbatim>\<open>removedCards\<close> holds optional cards.
\<close>

function getCards_loop :: "int \<Rightarrow> int \<Rightarrow> Card option list \<Rightarrow> Deck \<Rightarrow> Card option list \<times> Deck" where
  "getCards_loop i amount removedCards d =
     (if i < amount
      then getCards_loop (i + 1) amount
             (removedCards @ [fst (shift (deck d))]) (d\<lparr>deck := snd (shift (deck d))\<rparr>)
      else (removedCards, d))"
  by pat_completeness auto
termination
  by (relation "measure (\<lambda>(i, amount, removedCards, d). nat (amount - i))") auto

declare getCards_loop.simps [simp del]

definition getCards :: "int \<Rightarrow> Deck \<Rightarrow> Card option list \<times> Deck" where
  "getCards amount d =
     (if amount \<ge> 1 \<and> amount < int (length (deck d)) - amount
      then getCards_loop 0 amount [] d
      else ([], d))"

section \<open>Serialization\<close>

subsection \<open>Library functions of the language\<close>

text \<open>
  \<^verbatim>\<open>Array.prototype.map\<close> with a callback that may throw: the first exception ends the
  whole call.
\<close>

fun array_map :: "('a \<Rightarrow> error + 'b) \<Rightarrow> 'a list \<Rightarrow> error + 'b list" where
  "array_map f [] = Inr []"
| "array_map f (x # xs) =
     (case f x of
        Inl e \<Rightarrow> Inl e
      | Inr y \<Rightarrow> (case array_map f xs of Inl e \<Rightarrow> Inl e | Inr ys \<Rightarrow> Inr (y # ys)))"

text \<open>
  The doubles with a non-negative integer value are the integers \<open>q * 2 ^ e\<close> with
  \<open>0 \<le> q < 2 ^ 53\<close> that lie below \<open>2 ^ 1024\<close>.  For an integer \<open>m \<ge> 0\<close>, \<open>round_double m\<close> is the
  double nearest to \<open>m\<close>, the one with the even significand when two are equally near, and
  \<open>None\<close> when the rounding gives infinity.  \<open>bit_length m\<close> is the number of binary digits of
  \<open>m\<close>: an integer of at most 53 binary digits is kept, a longer one loses its low
  \<open>bit_length m - 53\<close> digits.
\<close>

function bit_length :: "int \<Rightarrow> nat" where
  "bit_length n = (if n \<le> 0 then 0 else Suc (bit_length (n div 2)))"
  by pat_completeness auto
termination
  by (relation "measure (\<lambda>n. nat n)") auto

declare bit_length.simps [simp del]

definition round_double :: "int \<Rightarrow> int option" where
  "round_double m =
     (let e = bit_length m - 53;
          q = m div 2 ^ e;
          r = m mod 2 ^ e;
          up = (2 ^ e < 2 * r \<or> (2 * r = 2 ^ e \<and> odd q));
          v = (if up then q + 1 else q) * 2 ^ e
      in if bit_length v \<le> 1024 then Some v else None)"

definition is_number :: "int \<Rightarrow> bool" where
  "is_number n = (round_double \<bar>n\<bar> = Some \<bar>n\<bar>)"

text \<open>The decimal digits of an integer \<open>n \<ge> 0\<close>.\<close>

definition digit_char :: "nat \<Rightarrow> char" where
  "digit_char n = char_of (48 + n)"

function decimal :: "int \<Rightarrow> string" where
  "decimal n =
     (if n < 10 then [digit_char (nat n)]
      else decimal (n div 10) @ [digit_char (nat (n mod 10))])"
  by pat_completeness auto
termination
  by (relation "measure (\<lambda>n. nat n)") auto

declare decimal.simps [simp del]

text \<open>
  A number in a template literal (\<^verbatim>\<open>Number::toString\<close> of the language standard, radix 10), for
  a number with an integer value \<open>x > 0\<close> (a negative number prints \<^verbatim>\<open>-\<close> and its negation).  The standard takes integers \<open>n\<close>, \<open>k\<close> and \<open>s\<close> with
  \<open>k \<ge> 1\<close>, \<open>10 ^ (k - 1) \<le> s < 10 ^ k\<close> and \<open>s * 10 ^ (n - k)\<close> rounding to \<open>x\<close>, with \<open>k\<close> as small
  as possible, and among several \<open>s\<close> the one for which \<open>s * 10 ^ (n - k)\<close> is nearest to \<open>x\<close>, the
  even one of two equally near.  It prints the digits of \<open>s\<close> followed by \<open>n - k\<close> zeros when
  \<open>k \<le> n \<le> 21\<close>, and the exponent form when \<open>n > 21\<close>.

  For an integer \<open>x\<close> of \<open>m\<close> decimal digits, \<open>n\<close> is \<open>m\<close>, or \<open>m + 1\<close> when \<open>10 ^ m\<close> itself rounds to
  \<open>x\<close> (then \<open>s = 1\<close> and \<open>k = 1\<close>); \<open>k\<close> is at most \<open>m\<close>, since the \<open>m\<close> digits of \<open>x\<close> give \<open>x\<close>; and for
  a given \<open>k\<close> the nearest candidates are the two multiples of \<open>10 ^ (m - k)\<close> around \<open>x\<close>.
\<close>

definition digits_valid :: "int \<Rightarrow> nat \<Rightarrow> nat \<Rightarrow> int \<Rightarrow> bool" where
  "digits_valid x n k s =
     (10 ^ (k - 1) \<le> s \<and> s < 10 ^ k \<and> round_double (s * 10 ^ (n - k)) = Some x)"

definition pick_digits :: "int \<Rightarrow> nat \<Rightarrow> nat \<Rightarrow> int option" where
  "pick_digits x n k =
     (let p = 10 ^ (n - k);
          lo = x div p;
          hi = lo + 1
      in if digits_valid x n k lo \<and> digits_valid x n k hi
         then Some (if x - lo * p < hi * p - x then lo
                    else if hi * p - x < x - lo * p then hi
                    else if even lo then lo else hi)
         else if digits_valid x n k lo then Some lo
         else if digits_valid x n k hi then Some hi
         else None)"

fun search_digits :: "int \<Rightarrow> nat \<Rightarrow> nat list \<Rightarrow> int \<times> nat" where
  "search_digits x m [] = (x, m)"
| "search_digits x m (k # ks) =
     (case pick_digits x m k of Some s \<Rightarrow> (s, k) | None \<Rightarrow> search_digits x m ks)"

definition shortest_digits :: "int \<Rightarrow> int \<times> nat \<times> nat" where
  "shortest_digits x =
     (let m = length (decimal x)
      in if round_double (10 ^ m) = Some x then (1, 1, m + 1)
         else (case search_digits x m [1..<m] of (s, k) \<Rightarrow> (s, k, m)))"

definition integer_toString :: "int \<Rightarrow> string" where
  "integer_toString x =
     (if x = 0 then ''0''
      else (case shortest_digits x of
              (s, k, n) \<Rightarrow>
                if n \<le> 21 then decimal s @ replicate (n - k) CHR ''0''
                else if k = 1 then decimal s @ ''e+'' @ decimal (int n - 1)
                else take 1 (decimal s) @ ''.'' @ drop 1 (decimal s) @ ''e+'' @
                     decimal (int n - 1)))"

definition Number_toString :: "jsnum \<Rightarrow> string" where
  "Number_toString x =
     (case x of
        NaN \<Rightarrow> ''NaN''
      | PosInfinity \<Rightarrow> ''Infinity''
      | NegInfinity \<Rightarrow> ''-Infinity''
      | Num n \<Rightarrow> if n < 0 then CHR ''-'' # integer_toString (- n) else integer_toString n)"

text \<open>A value of type \<^verbatim>\<open>string | undefined\<close> in a template literal.\<close>

definition String_toString :: "string option \<Rightarrow> string" where
  "String_toString v = (case v of None \<Rightarrow> ''undefined'' | Some s \<Rightarrow> s)"

text \<open>
  \<^verbatim>\<open>parseInt\<close> with no radix, after the language standard: skip leading white space, read
  a sign, read the prefix \<^verbatim>\<open>0x\<close> or \<^verbatim>\<open>0X\<close> (then the radix is 16, else 10), take the longest
  run of digits of the radix; no digit gives \<^verbatim>\<open>NaN\<close>.  The result is the double nearest to the
  integer the digits denote, an infinity when that integer is too large.  (Past 20 significant
  decimal digits the standard also allows an approximation; the engine the module runs on
  rounds the exact integer.)
\<close>

definition StrWhiteSpaceChar :: "char \<Rightarrow> bool" where
  "StrWhiteSpaceChar c = ((of_char c :: nat) \<in> {0x09, 0x0A, 0x0B, 0x0C, 0x0D, 0x20, 0xA0})"

definition digit_value :: "char \<Rightarrow> nat option" where
  "digit_value c =
     (let n = (of_char c :: nat)
      in if 48 \<le> n \<and> n \<le> 57 then Some (n - 48)
         else if 97 \<le> n \<and> n \<le> 122 then Some (n - 87)
         else if 65 \<le> n \<and> n \<le> 90 then Some (n - 55)
         else None)"

definition radix_digit :: "nat \<Rightarrow> char \<Rightarrow> bool" where
  "radix_digit R c = (case digit_value c of None \<Rightarrow> False | Some v \<Rightarrow> v < R)"

definition radix_value :: "nat \<Rightarrow> string \<Rightarrow> int" where
  "radix_value R Z =
     foldl (\<lambda>a c. a * int R + (case digit_value c of None \<Rightarrow> 0 | Some v \<Rightarrow> int v)) 0 Z"

definition parseInt :: "string \<Rightarrow> jsnum" where
  "parseInt inputString =
     (let S0 = dropWhile StrWhiteSpaceChar inputString;
          sign = (case S0 of c # _ \<Rightarrow> if c = CHR ''-'' then - 1 else 1 | [] \<Rightarrow> (1 :: int));
          S1 = (case S0 of c # rest \<Rightarrow> if c = CHR ''+'' \<or> c = CHR ''-'' then rest else S0
                | [] \<Rightarrow> S0);
          hex = (take 2 S1 = ''0x'' \<or> take 2 S1 = ''0X'');
          R = (if hex then 16 else 10);
          S2 = (if hex then drop 2 S1 else S1);
          Z = takeWhile (radix_digit R) S2
      in if Z = [] then NaN
         else (case round_double (radix_value R Z) of
                 None \<Rightarrow> if sign < 0 then NegInfinity else PosInfinity
               | Some y \<Rightarrow> Num (sign * y)))"

text \<open>
  \<^verbatim>\<open>String.prototype.split\<close> with a separator of one character: the pieces between the
  separators, at least one piece.
\<close>

fun split_on :: "char \<Rightarrow> string \<Rightarrow> string list" where
  "split_on sep [] = [[]]"
| "split_on sep (c # cs) =
     (if c = sep then [] # split_on sep cs
      else (case split_on sep cs of p # ps \<Rightarrow> (c # p) # ps | [] \<Rightarrow> [[c]]))"

text \<open>An index into an array or a string: \<^verbatim>\<open>undefined\<close> out of range.\<close>

definition at_index :: "'a list \<Rightarrow> nat \<Rightarrow> 'a option" where
  "at_index xs i = (if i < length xs then Some (xs ! i) else None)"

definition char_at :: "string \<Rightarrow> nat \<Rightarrow> string option" where
  "char_at s i = map_option (\<lambda>c. [c]) (at_index s i)"

text \<open>
  \<^verbatim>\<open>Array.prototype.indexOf\<close> on an array of strings, for a search value that may be
  \<^verbatim>\<open>undefined\<close>: the first index whose element is strictly equal to it, or \<open>-1\<close>.
\<close>

fun indexOf_from :: "string list \<Rightarrow> string option \<Rightarrow> int \<Rightarrow> int" where
  "indexOf_from [] v k = - 1"
| "indexOf_from (x # xs) v k = (if v = Some x then k else indexOf_from xs v (k + 1))"

definition indexOf :: "string list \<Rightarrow> string option \<Rightarrow> int" where
  "indexOf xs v = indexOf_from xs v 0"

subsection \<open>\<^verbatim>\<open>stringify\<close> and \<^verbatim>\<open>parse\<close>\<close>

text \<open>
  The callback of \<^verbatim>\<open>stringify\<close>.  Reading \<^verbatim>\<open>card.suit.value\<close> throws a \<^verbatim>\<open>TypeError\<close> when the
  suit is \<^verbatim>\<open>undefined\<close>.
\<close>

definition stringify_card :: "Card \<Rightarrow> error + string" where
  "stringify_card c =
     (case suit c of
        None \<Rightarrow> Inl TypeError
      | Some s \<Rightarrow>
          Inr (Number_toString (cid c) @ ''#'' @ String_toString (cvalue c) @ svalue s))"

definition stringify :: "Card list \<Rightarrow> error + string list" where
  "stringify cards = array_map stringify_card cards"

text \<open>
  The callback of \<^verbatim>\<open>parse\<close>.  The destructuring \<^verbatim>\<open>[id, card] = c.split("#")\<close> leaves \<^verbatim>\<open>card\<close>
  \<^verbatim>\<open>undefined\<close> when the token has no \<^verbatim>\<open>#\<close>, and \<^verbatim>\<open>card.length\<close> then throws a \<^verbatim>\<open>TypeError\<close>.
  The source's \<^verbatim>\<open>id\<close>, \<^verbatim>\<open>card\<close>, \<^verbatim>\<open>value\<close>, \<^verbatim>\<open>rank\<close> and \<^verbatim>\<open>suit\<close> are \<open>idPart\<close>, \<open>crd\<close>, \<open>val\<close>, \<open>rnk\<close>
  and \<open>st\<close> here.
\<close>

definition parse_card :: "string \<Rightarrow> error + Card" where
  "parse_card c =
     (let parts = split_on CHR ''#'' c;
          idPart = at_index parts 0;
          cardPart = at_index parts 1
      in case cardPart of
           None \<Rightarrow> Inl TypeError
         | Some crd \<Rightarrow>
             (let val = (if length crd = 3 then Some ''10'' else char_at crd 0);
                  rnk = indexOf CARDS val + 1;
                  suitValue = (if length crd = 3 then char_at crd 2 else char_at crd 1);
                  st = find (\<lambda>s. Some (svalue s) = suitValue) SUITS
              in Inr \<lparr>cid = (case idPart of None \<Rightarrow> NaN | Some i \<Rightarrow> parseInt i),
                      cvalue = val, rank = rnk, suit = st\<rparr>))"

definition parse :: "string list \<Rightarrow> error + Card list" where
  "parse cards = array_map parse_card cards"

text \<open>
  The suit character of a token as \<^verbatim>\<open>parse\<close> reads it: the third character of the card part
  when the card part has length 3, else the second; \<^verbatim>\<open>undefined\<close> when there is none.
\<close>

definition suit_character :: "string \<Rightarrow> string option" where
  "suit_character tok =
     (case at_index (split_on CHR ''#'' tok) 1 of
        None \<Rightarrow> None
      | Some crd \<Rightarrow> if length crd = 3 then char_at crd 2 else char_at crd 1)"

text \<open>
  A valid card: the id a number with a non-negative integer value below \<open>10 ^ 21\<close>, the value
  one of the rank labels, the rank the position of the label in the catalog plus one, the
  suit one of the catalog's records.
\<close>

definition valid_card :: "Card \<Rightarrow> bool" where
  "valid_card c =
     (case (cid c, cvalue c, suit c) of
        (Num n, Some v, Some s) \<Rightarrow>
          is_number n \<and> 0 \<le> n \<and> n < 10 ^ 21 \<and> v \<in> set CARDS \<and>
          rank c = indexOf CARDS (Some v) + 1 \<and> s \<in> set SUITS
      | _ \<Rightarrow> False)"

text \<open>
  The order in which the constructor fills the deck: the suits of the catalog in the outer
  position, the rank labels in the inner one, the ids counting up from 0.
\<close>

definition catalog_order :: "Card list" where
  "catalog_order =
     concat (map (\<lambda>j. map (\<lambda>i. \<lparr>cid = Num (int (13 * j + i)), cvalue = Some (CARDS ! i),
                                 rank = int i + 1, suit = Some (SUITS ! j)\<rparr>) [0..<13]) [0..<4])"

text \<open>The rank of a card agrees with its value.\<close>

definition rank_consistent :: "Card \<Rightarrow> bool" where
  "rank_consistent c = (rank c = indexOf CARDS (cvalue c) + 1)"

section \<open>Validation and description\<close>

text \<open>
  \<^verbatim>\<open>validate\<close> looks at the keys of its argument, so the argument is an object as it is at
  run time: a plain object is the list of its own enumerable properties, in order, and a
  property holds any value.  Function values are not represented.
\<close>

datatype jsval =
    JUndefined
  | JNull
  | JBoolean bool
  | JNumber jsnum
  | JString string
  | JObject "(string \<times> jsval) list"

type_synonym jsobject = "(string \<times> jsval) list"

definition Object_keys :: "jsobject \<Rightarrow> string list" where
  "Object_keys obj = map fst obj"

definition array_includes :: "string list \<Rightarrow> string \<Rightarrow> bool" where
  "array_includes xs x = (x \<in> set xs)"

definition validate :: "jsobject \<Rightarrow> bool" where
  "validate playingCard =
     (let cardProps = Object_keys playingCard
      in if array_includes cardProps ''id'' \<and> array_includes cardProps ''value'' \<and>
            array_includes cardProps ''rank'' \<and> array_includes cardProps ''suit''
         then True else False)"

text \<open>
  Reading a property of an object gives \<^verbatim>\<open>undefined\<close> when the object has no such property;
  the prototype of a plain object has none of the names \<^verbatim>\<open>value\<close> and \<^verbatim>\<open>suit\<close> read here.
\<close>

definition get_member :: "jsobject \<Rightarrow> string \<Rightarrow> jsval" where
  "get_member obj k = (case map_of obj k of None \<Rightarrow> JUndefined | Some v \<Rightarrow> v)"

text \<open>
  The read \<^verbatim>\<open>x.value\<close> on any value \<open>x\<close>: a \<^verbatim>\<open>TypeError\<close> on \<^verbatim>\<open>undefined\<close> and \<^verbatim>\<open>null\<close>, the
  property on an object, \<^verbatim>\<open>undefined\<close> on the other primitive values.
\<close>

definition dot_value :: "jsval \<Rightarrow> error + jsval" where
  "dot_value x =
     (case x of
        JUndefined \<Rightarrow> Inl TypeError
      | JNull \<Rightarrow> Inl TypeError
      | JObject obj \<Rightarrow> Inr (get_member obj ''value'')
      | _ \<Rightarrow> Inr JUndefined)"

text \<open>
  The conversion of a value to a string, in a template literal and for a property key.  A
  plain object converts through the inherited \<^verbatim>\<open>toString\<close>; an own property \<^verbatim>\<open>toString\<close>
  that is not a function leaves no conversion, a \<^verbatim>\<open>TypeError\<close>.
\<close>

definition ToString :: "jsval \<Rightarrow> error + string" where
  "ToString x =
     (case x of
        JUndefined \<Rightarrow> Inr ''undefined''
      | JNull \<Rightarrow> Inr ''null''
      | JBoolean b \<Rightarrow> Inr (if b then ''true'' else ''false'')
      | JNumber n \<Rightarrow> Inr (Number_toString n)
      | JString s \<Rightarrow> Inr s
      | JObject obj \<Rightarrow>
          if array_includes (Object_keys obj) ''toString'' then Inl TypeError
          else Inr ''[object Object]'')"

text \<open>
  A lookup in one of the two text tables by key: the text, or \<^verbatim>\<open>undefined\<close>.  Only the
  table's own properties are represented, not the members it inherits from
  \<^verbatim>\<open>Object.prototype\<close>.
\<close>

definition lookup_text :: "(string \<times> string) list \<Rightarrow> string \<Rightarrow> jsval" where
  "lookup_text tbl k = (case map_of tbl k of None \<Rightarrow> JUndefined | Some t \<Rightarrow> JString t)"

definition and_then :: "error + 'a \<Rightarrow> ('a \<Rightarrow> error + 'b) \<Rightarrow> error + 'b" where
  "and_then r f = (case r of Inl e \<Rightarrow> Inl e | Inr x \<Rightarrow> f x)"

definition getCardText :: "jsobject \<Rightarrow> error + jsval" where
  "getCardText playingCard =
     (if \<not> validate playingCard then Inr (JString '''')
      else and_then (ToString (get_member playingCard ''value''))
             (\<lambda>k. Inr (lookup_text CARDS_TEXT k)))"

definition getSuitText :: "jsobject \<Rightarrow> error + jsval" where
  "getSuitText playingCard =
     (if \<not> validate playingCard then Inr (JString '''')
      else and_then (dot_value (get_member playingCard ''suit''))
             (\<lambda>v. and_then (ToString v) (\<lambda>k. Inr (lookup_text SUITS_TEXT k))))"

definition getCardDescription :: "jsobject \<Rightarrow> error + string" where
  "getCardDescription playingCard =
     (if \<not> validate playingCard then Inr ''''
      else and_then (getCardText playingCard) (\<lambda>cardText.
           and_then (getSuitText playingCard) (\<lambda>suitText.
           and_then (ToString cardText) (\<lambda>a.
           and_then (ToString suitText) (\<lambda>b. Inr (a @ '' of '' @ b))))))"

text \<open>The object that a card of the typed model is at run time.\<close>

definition suit_object :: "Suit \<Rightarrow> jsval" where
  "suit_object s =
     JObject [(''value'', JString (svalue s)), (''color'', JString (color s)),
              (''utf'', JString (utf s))]"

definition card_object :: "Card \<Rightarrow> jsobject" where
  "card_object c =
     [(''id'', JNumber (cid c)),
      (''value'', case cvalue c of None \<Rightarrow> JUndefined | Some v \<Rightarrow> JString v),
      (''rank'', JNumber (Num (rank c))),
      (''suit'', case suit c of None \<Rightarrow> JUndefined | Some s \<Rightarrow> suit_object s)]"

section \<open>Arrays with identity\<close>

text \<open>
  \<^verbatim>\<open>sort\<close> reorders the array it is given, in place, and the private field \<^verbatim>\<open>deck\<close> of an
  instance holds a reference to an array.  For the claims on what a call writes, an array
  is a cell of a store, found by its reference.  A card stays a value: no method writes a
  field of a card.  \<open>Deck_sort\<close> above is what the call does to the contents of the array.
\<close>

type_synonym ref = nat

type_synonym store = "ref \<Rightarrow> Card list option"

text \<open>The fields of an instance: the reference in \<^verbatim>\<open>deck\<close> and the counter \<^verbatim>\<open>id\<close>.\<close>

record Deck_fields =
  deck_ref :: ref
  id_counter :: int

text \<open>
  \<^verbatim>\<open>sort(cards)\<close> on the store: the method assigns no field of \<^verbatim>\<open>this\<close>, so it returns the
  reference and the store only.
\<close>

definition sort_in_place :: "Deck_fields \<Rightarrow> ref \<Rightarrow> store \<Rightarrow> ref \<times> store" where
  "sort_in_place this cards st =
     (cards, case st cards of None \<Rightarrow> st | Some xs \<Rightarrow> st(cards \<mapsto> Deck_sort xs))"

section \<open>Objects with identity\<close>

text \<open>
  Every getter of the catalog builds its result anew, and the constructor copies a suit
  record with a spread.  For the claims on sharing, objects and arrays are the cells of a
  heap.  A cell is found by its address; a property or an element holds a primitive value or
  the address of a cell.  Allocation takes the next unused address.  The cells a program
  holds no reference to stay in the heap.
\<close>

type_synonym addr = nat

datatype hval = HUndefined | HNumber int | HString string | HRef addr

datatype hobj = HObject "(string \<times> hval) list" | HArray "hval list"

record heap =
  cells :: "addr \<Rightarrow> hobj option"
  allocated :: nat

definition alloc :: "hobj \<Rightarrow> heap \<Rightarrow> addr \<times> heap" where
  "alloc obj h =
     (allocated h, h\<lparr>cells := (cells h)(allocated h \<mapsto> obj), allocated := allocated h + 1\<rparr>)"

text \<open>The literals of an array literal, allocated from left to right.\<close>

fun alloc_each :: "hobj list \<Rightarrow> heap \<Rightarrow> addr list \<times> heap" where
  "alloc_each [] h = ([], h)"
| "alloc_each (obj # objs) h =
     (case alloc obj h of (a, h1) \<Rightarrow>
      case alloc_each objs h1 of (as, h2) \<Rightarrow> (a # as, h2))"

text \<open>
  Reads under the types of the source: the elements of an array, the properties of an
  object, an element by index (\<^verbatim>\<open>undefined\<close> out of range), and the own properties that a
  spread copies (none for a value that is no object).
\<close>

definition elements :: "heap \<Rightarrow> addr \<Rightarrow> hval list" where
  "elements h a = (case cells h a of Some (HArray xs) \<Rightarrow> xs | _ \<Rightarrow> [])"

definition properties :: "heap \<Rightarrow> addr \<Rightarrow> (string \<times> hval) list" where
  "properties h a = (case cells h a of Some (HObject ps) \<Rightarrow> ps | _ \<Rightarrow> [])"

definition element_at :: "hval list \<Rightarrow> nat \<Rightarrow> hval" where
  "element_at xs i = (if i < length xs then xs ! i else HUndefined)"

definition spread :: "heap \<Rightarrow> hval \<Rightarrow> (string \<times> hval) list" where
  "spread h v = (case v of HRef a \<Rightarrow> properties h a | _ \<Rightarrow> [])"

text \<open>\<^verbatim>\<open>Array.prototype.push\<close> writes the array in place.\<close>

definition push :: "addr \<Rightarrow> hval \<Rightarrow> heap \<Rightarrow> heap" where
  "push a v h = h\<lparr>cells := (cells h)(a \<mapsto> HArray (elements h a @ [v]))\<rparr>"

subsection \<open>The getters\<close>

definition suit_literal :: "Suit \<Rightarrow> hobj" where
  "suit_literal s =
     HObject [(''value'', HString (svalue s)), (''color'', HString (color s)),
              (''utf'', HString (utf s))]"

definition text_literal :: "(string \<times> string) list \<Rightarrow> hobj" where
  "text_literal tbl = HObject (map (\<lambda>(k, t). (k, HString t)) tbl)"

definition get_CARDS :: "heap \<Rightarrow> addr \<times> heap" where
  "get_CARDS h = alloc (HArray (map HString CARDS)) h"

definition get_CARDS_TEXT :: "heap \<Rightarrow> addr \<times> heap" where
  "get_CARDS_TEXT h = alloc (text_literal CARDS_TEXT) h"

definition get_SUITS :: "heap \<Rightarrow> addr \<times> heap" where
  "get_SUITS h =
     (case alloc_each (map suit_literal SUITS) h of
        (refs, h1) \<Rightarrow> alloc (HArray (map HRef refs)) h1)"

definition get_SUITS_COLOR :: "heap \<Rightarrow> addr \<times> heap" where
  "get_SUITS_COLOR h = alloc (HArray (map HString SUITS_COLOR)) h"

definition get_SUITS_UTF :: "heap \<Rightarrow> addr \<times> heap" where
  "get_SUITS_UTF h = alloc (HArray (map HString SUITS_UTF)) h"

definition get_SUITS_TEXT :: "heap \<Rightarrow> addr \<times> heap" where
  "get_SUITS_TEXT h = alloc (text_literal SUITS_TEXT) h"

subsection \<open>The constructor on the heap\<close>

text \<open>
  The two loops again, with every access to a getter and every object literal as the
  allocations they are.  In the body, \<^verbatim>\<open>this.id++\<close> is read first, then \<^verbatim>\<open>Deck.CARDS[i]\<close>, then
  \<^verbatim>\<open>{ ...Deck.SUITS[j] }\<close>; the card object takes its address once its properties are
  evaluated.
\<close>

function fill_cards_heap :: "nat \<Rightarrow> nat \<Rightarrow> Deck_fields \<Rightarrow> heap \<Rightarrow> Deck_fields \<times> heap" where
  "fill_cards_heap j i this h =
     (case get_CARDS h of (cs, h1) \<Rightarrow>
        if i < length (elements h1 cs) then
          (case get_CARDS h1 of (cs2, h2) \<Rightarrow>
           case get_SUITS h2 of (ss, h3) \<Rightarrow>
           case alloc (HObject (spread h3 (element_at (elements h3 ss) j))) h3 of (s, h4) \<Rightarrow>
           case alloc (HObject [(''id'', HNumber (id_counter this)),
                                (''value'', element_at (elements h2 cs2) i),
                                (''rank'', HNumber (int i + 1)),
                                (''suit'', HRef s)]) h4 of (c, h5) \<Rightarrow>
             fill_cards_heap j (i + 1) (this\<lparr>id_counter := id_counter this + 1\<rparr>)
               (push (deck_ref this) (HRef c) h5))
        else (this, h1))"
  by pat_completeness auto
termination
  by (relation "measure (\<lambda>(j, i, this, h). length CARDS - i)")
    (auto simp: get_CARDS_def alloc_def elements_def)

declare fill_cards_heap.simps [simp del]

function fill_suits_heap :: "nat \<Rightarrow> Deck_fields \<Rightarrow> heap \<Rightarrow> Deck_fields \<times> heap" where
  "fill_suits_heap j this h =
     (case get_SUITS h of (ss, h1) \<Rightarrow>
        if j < length (elements h1 ss) then
          (case fill_cards_heap j 0 this h1 of (this1, h2) \<Rightarrow> fill_suits_heap (j + 1) this1 h2)
        else (this, h1))"
  by pat_completeness auto
termination
proof -
  have len: "alloc_each objs h = (refs, h1) \<Longrightarrow> length refs = length objs" for objs h refs h1
    by (induction objs arbitrary: h refs h1) (auto simp: alloc_def split: prod.splits)
  show ?thesis
    by (relation "measure (\<lambda>(j, this, h). length SUITS - j)")
      (auto simp: get_SUITS_def alloc_def elements_def split: prod.splits dest!: len)
qed

declare fill_suits_heap.simps [simp del]

text \<open>
  The field initialiser \<^verbatim>\<open>deck = []\<close> allocates the array of the instance; \<^verbatim>\<open>shuffle\<close> returns
  a new array.
\<close>

definition new_Deck_heap :: "(hval list \<Rightarrow> hval list) \<Rightarrow> bool \<Rightarrow> heap \<Rightarrow> Deck_fields \<times> heap" where
  "new_Deck_heap shuffle preShuffle h =
     (case alloc (HArray []) h of (d, h1) \<Rightarrow>
      case fill_suits_heap 0 \<lparr>deck_ref = d, id_counter = 0\<rparr> h1 of (this, h2) \<Rightarrow>
        if preShuffle
        then (case alloc (HArray (shuffle (elements h2 (deck_ref this)))) h2 of
                (d', h3) \<Rightarrow> (this\<lparr>deck_ref := d'\<rparr>, h3))
        else (this, h2))"

text \<open>The typed card behind a reference, and the reference in its property \<^verbatim>\<open>suit\<close>.\<close>

definition read_suit :: "heap \<Rightarrow> hval \<Rightarrow> Suit option" where
  "read_suit h v =
     (case v of
        HRef a \<Rightarrow>
          (case (map_of (properties h a) ''value'', map_of (properties h a) ''color'',
                 map_of (properties h a) ''utf'') of
             (Some (HString x), Some (HString y), Some (HString z)) \<Rightarrow>
               Some \<lparr>svalue = x, color = y, utf = z\<rparr>
           | _ \<Rightarrow> None)
      | _ \<Rightarrow> None)"

definition suit_of :: "heap \<Rightarrow> hval \<Rightarrow> hval" where
  "suit_of h v =
     (case v of
        HRef a \<Rightarrow> (case map_of (properties h a) ''suit'' of Some s \<Rightarrow> s | None \<Rightarrow> HUndefined)
      | _ \<Rightarrow> HUndefined)"

definition read_card :: "heap \<Rightarrow> hval \<Rightarrow> Card option" where
  "read_card h v =
     (case v of
        HRef a \<Rightarrow>
          (case (map_of (properties h a) ''id'', map_of (properties h a) ''value'',
                 map_of (properties h a) ''rank'', read_suit h (suit_of h v)) of
             (Some (HNumber n), Some (HString x), Some (HNumber r), Some s) \<Rightarrow>
               Some \<lparr>cid = Num n, cvalue = Some x, rank = r, suit = Some s\<rparr>
           | _ \<Rightarrow> None)
      | _ \<Rightarrow> None)"

subsection \<open>Sharing\<close>

text \<open>
  The addresses that a cell holds, and the heaps in which every cell lies below the
  allocation mark and holds addresses below it only.
\<close>

definition refs_of :: "hobj \<Rightarrow> addr set" where
  "refs_of obj =
     (case obj of
        HObject ps \<Rightarrow> {a. HRef a \<in> snd ` set ps}
      | HArray xs \<Rightarrow> {a. HRef a \<in> set xs})"

definition wf_heap :: "heap \<Rightarrow> bool" where
  "wf_heap h = (\<forall>a obj. cells h a = Some obj \<longrightarrow> a < allocated h \<and> refs_of obj \<subseteq> {..<allocated h})"

text \<open>
  A card placed in the deck: its id, the indices of its suit and of its label, the address
  of the card object and the address of the copy of the suit record.
\<close>

record placed =
  id_no :: int
  suit_ix :: nat
  label_ix :: nat
  card_at :: addr
  suit_at :: addr

definition card_cell :: "int \<Rightarrow> nat \<Rightarrow> addr \<Rightarrow> hobj" where
  "card_cell n i s =
     HObject [(''id'', HNumber n), (''value'', HString (CARDS ! i)),
              (''rank'', HNumber (int i + 1)), (''suit'', HRef s)]"

text \<open>
  The state of the heap while the deck at address \<open>d\<close> is filled, starting from the heap
  \<open>hi\<close>: the cells of \<open>hi\<close> are as they were, the array holds the cards placed so far, the
  addresses of the cards and of their suit copies are new and all different, and the only
  cell that holds the address of a suit copy is its card.
\<close>

definition owned :: "heap \<Rightarrow> placed \<Rightarrow> bool" where
  "owned h e = (\<forall>a obj. cells h a = Some obj \<and> suit_at e \<in> refs_of obj \<longrightarrow> a = card_at e)"

definition placed_ok :: "heap \<Rightarrow> heap \<Rightarrow> placed \<Rightarrow> bool" where
  "placed_ok hi h e =
     (allocated hi \<le> card_at e \<and> allocated hi \<le> suit_at e \<and> suit_ix e < 4 \<and> label_ix e < 13 \<and>
      cells h (card_at e) = Some (card_cell (id_no e) (label_ix e) (suit_at e)) \<and>
      cells h (suit_at e) = Some (suit_literal (SUITS ! suit_ix e)) \<and>
      owned h e)"

definition deck_inv :: "heap \<Rightarrow> addr \<Rightarrow> heap \<Rightarrow> placed list \<Rightarrow> bool" where
  "deck_inv hi d h es =
     (wf_heap h \<and> allocated hi \<le> d \<and>
      (\<forall>a < allocated hi. cells h a = cells hi a) \<and>
      cells h d = Some (HArray (map (\<lambda>e. HRef (card_at e)) es)) \<and>
      distinct (d # map card_at es @ map suit_at es) \<and>
      (\<forall>e \<in> set es. placed_ok hi h e))"

definition proj :: "placed \<Rightarrow> int \<times> nat \<times> nat" where
  "proj e = (id_no e, suit_ix e, label_ix e)"

definition card_value :: "placed \<Rightarrow> Card" where
  "card_value e =
     \<lparr>cid = Num (id_no e), cvalue = Some (CARDS ! label_ix e), rank = int (label_ix e) + 1,
      suit = Some (SUITS ! suit_ix e)\<rparr>"

text \<open>
  A write to one cell: an assignment to a property or to an element, a \<^verbatim>\<open>push\<close>, or any other
  mutation of one object, gives the cell a new content.
\<close>

definition write_cell :: "addr \<Rightarrow> hobj option \<Rightarrow> heap \<Rightarrow> heap" where
  "write_cell a x h = h\<lparr>cells := (cells h)(a := x)\<rparr>"

text \<open>
  What the claims on copies say.  A getter \<open>G\<close> returns a fresh copy of \<open>v\<close> in the heap \<open>h\<close>:
  the address it returns is taken at the allocation mark, no cell below the mark is
  written, and the reader \<open>rd\<close> finds \<open>v\<close> at the address.  The values \<open>vs\<close> are fresh references: all are
  addresses taken since \<open>h\<close>, and no two are the same.  A card owns its suit: its property
  \<^verbatim>\<open>suit\<close> holds an address, and no other cell of the heap holds that address.
\<close>

definition fresh_copy :: "(heap \<Rightarrow> addr \<times> heap) \<Rightarrow> (heap \<Rightarrow> addr \<Rightarrow> 'a) \<Rightarrow> 'a \<Rightarrow> heap \<Rightarrow> bool" where
  "fresh_copy G rd v h =
     (case G h of (r, h') \<Rightarrow>
        allocated h \<le> r \<and> r < allocated h' \<and> (\<forall>a < allocated h. cells h' a = cells h a) \<and>
        rd h' r = v)"

definition fresh_refs :: "heap \<Rightarrow> heap \<Rightarrow> hval list \<Rightarrow> bool" where
  "fresh_refs h h' vs =
     (distinct vs \<and>
      list_all (\<lambda>v. case v of HRef a \<Rightarrow> allocated h \<le> a \<and> a < allocated h' | _ \<Rightarrow> False) vs)"

definition owns :: "heap \<Rightarrow> hval \<Rightarrow> bool" where
  "owns h c =
     (case (c, suit_of h c) of
        (HRef r, HRef s) \<Rightarrow> (\<forall>a obj. cells h a = Some obj \<and> s \<in> refs_of obj \<longrightarrow> a = r)
      | _ \<Rightarrow> False)"

section \<open>Properties\<close>

subsection \<open>Drawing\<close>

lemma getCards_loop_run:
  "0 \<le> k \<Longrightarrow> nat k \<le> length (deck d) \<Longrightarrow>
   getCards_loop i (i + k) acc d =
     (acc @ map Some (take (nat k) (deck d)), d\<lparr>deck := drop (nat k) (deck d)\<rparr>)"
proof (induction "nat k" arbitrary: k i acc d)
  case 0
  then have "k = 0" by simp
  then show ?case by (subst getCards_loop.simps) simp
next
  case (Suc n)
  then obtain c rest where dk: "deck d = c # rest"
    by (cases "deck d") auto
  have k: "0 < k" "nat k = Suc n" "nat (k - 1) = n" using Suc by auto
  have step: "getCards_loop i (i + k) acc d =
      getCards_loop (i + 1) (i + 1 + (k - 1)) (acc @ [Some c]) (d\<lparr>deck := rest\<rparr>)"
    using k dk by (subst getCards_loop.simps) (simp add: shift_def)
  have "getCards_loop (i + 1) (i + 1 + (k - 1)) (acc @ [Some c]) (d\<lparr>deck := rest\<rparr>) =
     ((acc @ [Some c]) @ map Some (take (nat (k - 1)) (deck (d\<lparr>deck := rest\<rparr>))),
      (d\<lparr>deck := rest\<rparr>)\<lparr>deck := drop (nat (k - 1)) (deck (d\<lparr>deck := rest\<rparr>))\<rparr>)"
    using Suc.hyps(1)[where k = "k - 1" and d = "d\<lparr>deck := rest\<rparr>" and i = "i + 1"
        and acc = "acc @ [Some c]"] Suc.prems k dk by simp
  then show ?case using step k dk by (simp add: take_Suc_conv_app_nth)
qed

lemma getCards_eq:
  "getCards amount d =
     (if amount \<ge> 1 \<and> amount < int (length (deck d)) - amount
      then (map Some (take (nat amount) (deck d)), d\<lparr>deck := drop (nat amount) (deck d)\<rparr>)
      else ([], d))"
  using getCards_loop_run[of amount d 0 "[]"] by (auto simp: getCards_def)

text \<open>
  Claim C3.  For every deck and every integer \<open>amount\<close>, \<^verbatim>\<open>getCards(amount)\<close> removes the
  first \<open>amount\<close> cards of the remaining sequence and returns them in their order exactly
  when \<open>amount \<ge> 1\<close> and \<open>amount < length - amount\<close>; in every other case it returns the empty
  sequence and the deck is as before.  On a deck of 52 cards, 26 draws nothing and leaves
  52, 25 draws 25 and leaves 27, and 0 and -1 draw nothing.
\<close>

theorem getCards_draws_front:
  "getCards amount d =
     (if amount \<ge> 1 \<and> amount < int (length (deck d)) - amount
      then (map Some (take (nat amount) (deck d)), d\<lparr>deck := drop (nat amount) (deck d)\<rparr>)
      else ([], d)) \<and>
   (length (deck d) = 52 \<longrightarrow>
      getCards 26 d = ([], d) \<and>
      fst (getCards 25 d) = map Some (take 25 (deck d)) \<and>
      length (fst (getCards 25 d)) = 25 \<and>
      snd (getCards 25 d) = d\<lparr>deck := drop 25 (deck d)\<rparr> \<and>
      length (deck (snd (getCards 25 d))) = 27 \<and>
      getCards 0 d = ([], d) \<and>
      getCards (- 1) d = ([], d))"
  by (simp add: getCards_eq)

theorem getCards_draws_front_witness:
  "length (deck \<lparr>deck = catalog_order, next_id = 52\<rparr>) = 52 \<and>
   getCards 26 \<lparr>deck = catalog_order, next_id = 52\<rparr> = ([], \<lparr>deck = catalog_order, next_id = 52\<rparr>) \<and>
   length (fst (getCards 25 \<lparr>deck = catalog_order, next_id = 52\<rparr>)) = 25 \<and>
   length (deck (snd (getCards 25 \<lparr>deck = catalog_order, next_id = 52\<rparr>))) = 27 \<and>
   getCards 0 \<lparr>deck = catalog_order, next_id = 52\<rparr> = ([], \<lparr>deck = catalog_order, next_id = 52\<rparr>) \<and>
   getCards (- 1) \<lparr>deck = catalog_order, next_id = 52\<rparr> = ([], \<lparr>deck = catalog_order, next_id = 52\<rparr>)"
proof -
  have l: "length (deck \<lparr>deck = catalog_order, next_id = 52\<rparr>) = 52" by code_simp
  from getCards_draws_front[of 0 "\<lparr>deck = catalog_order, next_id = 52\<rparr>"] l
  show ?thesis by simp
qed

subsection \<open>Sorting\<close>

lemma mset_insert_cmp: "mset (insert_cmp cmp x ys) = add_mset x (mset ys)"
  by (induction ys) auto

lemma mset_array_sort: "mset (array_sort cmp xs) = mset xs"
  by (induction xs) (auto simp: array_sort_def mset_insert_cmp)

lemma set_insert_cmp: "set (insert_cmp cmp x ys) = insert x (set ys)"
  by (induction ys) auto

lemma desc_insert_cmp:
  "sorted_wrt (\<lambda>a b. rank b \<le> rank a) ys \<Longrightarrow>
   sorted_wrt (\<lambda>a b. rank b \<le> rank a) (insert_cmp (\<lambda>a b. rank b - rank a) x ys)"
  by (induction ys) (auto simp: set_insert_cmp)

lemma desc_Deck_sort: "sorted_wrt (\<lambda>a b. rank b \<le> rank a) (Deck_sort cards)"
  unfolding Deck_sort_def array_sort_def
  by (induction cards) (auto intro: desc_insert_cmp)

lemma filter_insert_cmp:
  "sorted_wrt (\<lambda>a b. rank b \<le> rank a) ys \<Longrightarrow>
   filter (\<lambda>c. rank c = k) (insert_cmp (\<lambda>a b. rank b - rank a) x ys) =
     (if rank x = k then x # filter (\<lambda>c. rank c = k) ys else filter (\<lambda>c. rank c = k) ys)"
  by (induction ys) auto

lemma filter_Deck_sort:
  "filter (\<lambda>c. rank c = k) (Deck_sort cards) = filter (\<lambda>c. rank c = k) cards"
proof (induction cards)
  case Nil
  show ?case by (simp add: Deck_sort_def array_sort_def)
next
  case (Cons c cards)
  have "Deck_sort (c # cards) = insert_cmp (\<lambda>a b. rank b - rank a) c (Deck_sort cards)"
    by (simp add: Deck_sort_def array_sort_def)
  then show ?case
    using Cons filter_insert_cmp[OF desc_Deck_sort, of k c cards] by simp
qed

lemma Deck_sort_example:
  assumes "map rank cards = [3, 1, 13, 7]"
  shows "map rank (Deck_sort cards) = [13, 7, 3, 1]"
proof -
  from assms obtain a b c d where "cards = [a, b, c, d]"
    "rank a = 3" "rank b = 1" "rank c = 13" "rank d = 7"
    by auto
  then show ?thesis by (simp add: Deck_sort_def array_sort_def)
qed

text \<open>
  Claim C4.  For every sequence of cards, \<^verbatim>\<open>sort\<close> returns a permutation of it in descending
  order of rank, and the cards of one rank keep their relative order of the input; cards of
  ranks 3, 1, 13, 7 come out with ranks 13, 7, 3, 1.
\<close>

theorem Deck_sort_descending_stable:
  "mset (Deck_sort cards) = mset cards \<and>
   sorted_wrt (\<lambda>a b. rank b \<le> rank a) (Deck_sort cards) \<and>
   (\<forall>k. filter (\<lambda>c. rank c = k) (Deck_sort cards) = filter (\<lambda>c. rank c = k) cards) \<and>
   (map rank cards = [3, 1, 13, 7] \<longrightarrow> map rank (Deck_sort cards) = [13, 7, 3, 1])"
  using desc_Deck_sort filter_Deck_sort Deck_sort_example
  by (simp add: Deck_sort_def mset_array_sort)

theorem Deck_sort_descending_stable_witness:
  "map rank (map (\<lambda>r. \<lparr>cid = Num r, cvalue = None, rank = r, suit = None\<rparr>) [3, 1, 13, 7]) =
     [3, 1, 13, 7] \<and>
   map rank (Deck_sort (map (\<lambda>r. \<lparr>cid = Num r, cvalue = None, rank = r, suit = None\<rparr>) [3, 1, 13, 7])) =
     [13, 7, 3, 1]"
  using Deck_sort_descending_stable
    [of "map (\<lambda>r. \<lparr>cid = Num r, cvalue = None, rank = r, suit = None\<rparr>) [3, 1, 13, 7]"]
  by simp

subsection \<open>Serialization\<close>

lemma of_char_digit_char: "d < 10 \<Longrightarrow> (of_char (digit_char d) :: nat) = 48 + d"
  by (simp add: digit_char_def)

lemma digit_value_digit_char: "d < 10 \<Longrightarrow> digit_value (digit_char d) = Some d"
  by (simp add: digit_value_def of_char_digit_char)

lemma decimal_chars:
  "c \<in> set (decimal n) \<Longrightarrow> \<exists>d < 10. c = digit_char d"
proof (induction n rule: decimal.induct)
  case (1 n)
  show ?case
  proof (cases "n < 10")
    case True
    with "1.prems" have "c = digit_char (nat n)" by (subst (asm) decimal.simps) auto
    moreover have "nat n < 10" using True by simp
    ultimately show ?thesis by blast
  next
    case False
    with "1.prems" have "c \<in> set (decimal (n div 10)) \<or> c = digit_char (nat (n mod 10))"
      by (subst (asm) decimal.simps) auto
    then show ?thesis
    proof
      assume "c \<in> set (decimal (n div 10))"
      with False "1.IH" show ?thesis by simp
    next
      assume "c = digit_char (nat (n mod 10))"
      moreover have "nat (n mod 10) < 10" by simp
      ultimately show ?thesis by blast
    qed
  qed
qed

lemma decimal_not_Nil: "decimal n \<noteq> []"
  by (subst decimal.simps) simp

lemma radix_value_snoc:
  "radix_value R (Z @ [c]) =
     radix_value R Z * int R + (case digit_value c of None \<Rightarrow> 0 | Some v \<Rightarrow> int v)"
  by (simp add: radix_value_def)

lemma radix_value_decimal: "0 \<le> n \<Longrightarrow> radix_value 10 (decimal n) = n"
proof (induction n rule: decimal.induct)
  case (1 n)
  show ?case
  proof (cases "n < 10")
    case True
    then have "nat n < 10" by simp
    then show ?thesis using "1.prems"
      by (subst decimal.simps) (simp add: True radix_value_def digit_value_digit_char)
  next
    case False
    have d: "nat (n mod 10) < 10" by simp
    have "radix_value 10 (decimal n) =
        radix_value 10 (decimal (n div 10)) * 10 + n mod 10"
      using False by (subst decimal.simps) (simp add: radix_value_snoc digit_value_digit_char[OF d])
    moreover have "radix_value 10 (decimal (n div 10)) = n div 10"
      using False "1.prems" by (intro "1.IH") auto
    ultimately show ?thesis by simp
  qed
qed

lemma digit_char_zero: "digit_char 0 = CHR ''0''"
  by code_simp

lemma decimal_shift:
  "0 < s \<Longrightarrow> decimal (s * 10 ^ j) = decimal s @ replicate j CHR ''0''"
proof (induction j)
  case 0
  show ?case by simp
next
  case (Suc j)
  have pos: "0 < s * 10 ^ j" using Suc.prems by simp
  have "s * 10 ^ Suc j = s * 10 ^ j * 10" by simp
  then have "decimal (s * 10 ^ Suc j) = decimal (s * 10 ^ j * 10)"
    by (rule arg_cong)
  also have "\<dots> = decimal (s * 10 ^ j) @ [digit_char 0]"
    using pos by (subst decimal.simps) simp
  also have "\<dots> = decimal s @ replicate (Suc j) CHR ''0''"
    using Suc by (simp add: digit_char_zero replicate_append_same)
  finally show ?case .
qed

lemma decimal_length: "0 < j \<Longrightarrow> x < 10 ^ j \<Longrightarrow> length (decimal x) \<le> j"
proof (induction j arbitrary: x)
  case 0
  then show ?case by simp
next
  case (Suc j)
  show ?case
  proof (cases "x < 10")
    case True
    then show ?thesis by (subst decimal.simps) simp
  next
    case False
    then have j: "0 < j" using Suc.prems by (cases j) auto
    have "x div 10 < 10 ^ j" using Suc.prems(2) by simp
    from Suc.IH[OF j this] show ?thesis
      using False by (subst decimal.simps) simp
  qed
qed

lemma pick_digits_valid: "pick_digits x m k = Some s \<Longrightarrow> digits_valid x m k s"
  by (auto simp: pick_digits_def Let_def split: if_splits)

lemma search_digits_valid:
  "round_double x = Some x \<Longrightarrow> 0 < x \<Longrightarrow> search_digits x m ks = (s, k) \<Longrightarrow>
     round_double (s * 10 ^ (m - k)) = Some x \<and> 0 < s"
proof (induction ks)
  case Nil
  then show ?case by simp
next
  case (Cons a ks)
  show ?case
  proof (cases "pick_digits x m a")
    case None
    with Cons show ?thesis by simp
  next
    case (Some t)
    with Cons.prems have "s = t" "k = a" by simp_all
    with Some have v: "digits_valid x m k s" using pick_digits_valid by simp
    then have "(0 :: int) < 10 ^ (k - 1)" "10 ^ (k - 1) \<le> s" by (simp_all add: digits_valid_def)
    then have "0 < s" by linarith
    with v show ?thesis by (simp add: digits_valid_def)
  qed
qed

lemma shortest_digits_valid:
  assumes x: "round_double x = Some x" "0 < x" and sd: "shortest_digits x = (s, k, n)"
  shows "round_double (s * 10 ^ (n - k)) = Some x" "0 < s"
    "n \<le> length (decimal x) \<or>
       (n = Suc (length (decimal x)) \<and> round_double (10 ^ length (decimal x)) = Some x)"
proof -
  let ?m = "length (decimal x)"
  have all: "round_double (s * 10 ^ (n - k)) = Some x \<and> 0 < s \<and>
    (n \<le> ?m \<or> (n = Suc ?m \<and> round_double (10 ^ ?m) = Some x))"
  proof (cases "round_double (10 ^ ?m) = Some x")
    case True
    with sd have "s = 1" "k = 1" "n = Suc ?m" by (simp_all add: shortest_digits_def)
    with True show ?thesis by simp
  next
    case False
    obtain t j where tj: "search_digits x ?m [1..<?m] = (t, j)" by (cases "search_digits x ?m [1..<?m]")
    with False sd have "s = t" "k = j" "n = ?m" by (simp_all add: shortest_digits_def)
    with search_digits_valid[OF x tj] show ?thesis by simp
  qed
  from all show "round_double (s * 10 ^ (n - k)) = Some x" by simp
  from all show "0 < s" by simp
  from all show "n \<le> ?m \<or> (n = Suc ?m \<and> round_double (10 ^ ?m) = Some x)" by simp
qed

lemma round_double_ten_21: "round_double (10 ^ 21) = Some (10 ^ 21)"
  by code_simp

lemma integer_toString_plain:
  assumes x: "round_double x = Some x" "0 \<le> x" "x < 10 ^ 21"
  shows "\<exists>v\<ge>0. integer_toString x = decimal v \<and> round_double v = Some x"
proof (cases "x = 0")
  case True
  have "integer_toString 0 = decimal 0"
    by (subst decimal.simps) (simp add: integer_toString_def digit_char_zero)
  with True x(1) show ?thesis by auto
next
  case False
  then have pos: "0 < x" using x(2) by simp
  obtain s k n where sd: "shortest_digits x = (s, k, n)" by (cases "shortest_digits x")
  note v = shortest_digits_valid[OF x(1) pos sd]
  have m: "length (decimal x) \<le> 21" using decimal_length[of 21 x] x(3) by simp
  have n: "n \<le> 21"
  proof (rule ccontr)
    assume "\<not> n \<le> 21"
    with v(3) m have "length (decimal x) = 21" "round_double (10 ^ length (decimal x)) = Some x"
      by auto
    then have "round_double (10 ^ 21) = Some x" by simp
    with round_double_ten_21 x(3) show False by simp
  qed
  have "integer_toString x = decimal s @ replicate (n - k) CHR ''0''"
    using False sd n by (simp add: integer_toString_def)
  also have "\<dots> = decimal (s * 10 ^ (n - k))" using decimal_shift[OF v(2)] by simp
  finally have "integer_toString x = decimal (s * 10 ^ (n - k))" .
  moreover have "0 \<le> s * 10 ^ (n - k)" using v(2) by simp
  ultimately show ?thesis using v(1) by blast
qed

lemma decimal_radix_digit: "c \<in> set (decimal n) \<Longrightarrow> radix_digit 10 c"
  by (auto dest!: decimal_chars simp: radix_digit_def digit_value_digit_char)

lemma decimal_plain:
  assumes "c \<in> set (decimal n)"
  shows "\<not> StrWhiteSpaceChar c" "c \<noteq> CHR ''+''" "c \<noteq> CHR ''-''" "c \<noteq> CHR ''x''"
    "c \<noteq> CHR ''X''" "c \<noteq> CHR ''#''"
proof -
  from assms obtain d where d: "d < 10" "c = digit_char d"
    using decimal_chars by blast
  then have oc: "(of_char c :: nat) = 48 + d" by (simp add: of_char_digit_char)
  show "\<not> StrWhiteSpaceChar c" using oc d by (auto simp: StrWhiteSpaceChar_def)
  show "c \<noteq> CHR ''+''" using oc by auto
  show "c \<noteq> CHR ''-''" using oc by auto
  show "c \<noteq> CHR ''x''" using oc d by auto
  show "c \<noteq> CHR ''X''" using oc d by auto
  show "c \<noteq> CHR ''#''" using oc by auto
qed

lemma parseInt_decimal:
  assumes "0 \<le> n"
  shows "parseInt (decimal n) = (case round_double n of None \<Rightarrow> PosInfinity | Some y \<Rightarrow> Num y)"
proof -
  obtain c cs where S: "decimal n = c # cs"
    using decimal_not_Nil by (cases "decimal n") auto
  have c: "c \<in> set (decimal n)" by (simp add: S)
  have ws: "dropWhile StrWhiteSpaceChar (decimal n) = decimal n"
    using decimal_plain(1)[OF c] by (simp add: S)
  have sgn: "(case decimal n of c # _ \<Rightarrow> if c = CHR ''-'' then - 1 else 1 | [] \<Rightarrow> (1 :: int)) = 1"
    using decimal_plain(3)[OF c] by (simp add: S)
  have rest: "(case decimal n of c # rest \<Rightarrow> if c = CHR ''+'' \<or> c = CHR ''-'' then rest else decimal n
                | [] \<Rightarrow> decimal n) = decimal n"
    using decimal_plain(2,3)[OF c] by (simp add: S)
  have nohex: "\<not> (take 2 (decimal n) = ''0x'' \<or> take 2 (decimal n) = ''0X'')"
  proof
    assume "take 2 (decimal n) = ''0x'' \<or> take 2 (decimal n) = ''0X''"
    then have "CHR ''x'' \<in> set (take 2 (decimal n)) \<or> CHR ''X'' \<in> set (take 2 (decimal n))"
      by auto
    then have "CHR ''x'' \<in> set (decimal n) \<or> CHR ''X'' \<in> set (decimal n)"
      by (blast dest: in_set_takeD)
    then show False using decimal_plain(4,5) by blast
  qed
  have tw: "takeWhile (radix_digit 10) (decimal n) = decimal n"
    using decimal_radix_digit by (simp add: takeWhile_eq_all_conv)
  have "parseInt (decimal n) =
      (if decimal n = [] then NaN
       else (case round_double (radix_value 10 (decimal n)) of
               None \<Rightarrow> if (1 :: int) < 0 then NegInfinity else PosInfinity
             | Some y \<Rightarrow> Num (1 * y)))"
    unfolding parseInt_def Let_def ws sgn rest using nohex by (simp add: tw)
  then show ?thesis
    using assms by (simp add: decimal_not_Nil radix_value_decimal split: option.splits)
qed

lemma Number_toString_parseInt:
  assumes "is_number n" "0 \<le> n" "n < 10 ^ 21"
  shows "\<exists>a. Number_toString (Num n) = a \<and> CHR ''#'' \<notin> set a \<and> parseInt a = Num n"
proof -
  from assms have "round_double n = Some n" by (simp add: is_number_def)
  from integer_toString_plain[OF this assms(2,3)] obtain v
    where v: "0 \<le> v" "integer_toString n = decimal v" "round_double v = Some n" by blast
  have "Number_toString (Num n) = decimal v" using assms(2) v(2) by (simp add: Number_toString_def)
  moreover have "CHR ''#'' \<notin> set (decimal v)" using decimal_plain(6) by blast
  moreover have "parseInt (decimal v) = Num n" using v(1,3) by (simp add: parseInt_decimal)
  ultimately show ?thesis by simp
qed

lemma split_on_none: "sep \<notin> set s \<Longrightarrow> split_on sep s = [s]"
  by (induction s) auto

lemma split_on_first:
  "sep \<notin> set a \<Longrightarrow> split_on sep (a @ sep # b) = a # split_on sep b"
  by (induction a) auto

lemma split_on_token:
  "CHR ''#'' \<notin> set a \<Longrightarrow> CHR ''#'' \<notin> set b \<Longrightarrow> split_on CHR ''#'' (a @ ''#'' @ b) = [a, b]"
  by (simp add: split_on_first split_on_none)

lemma parse_card_token:
  assumes a: "CHR ''#'' \<notin> set a" and b: "CHR ''#'' \<notin> set b"
  shows "parse_card (a @ ''#'' @ b) =
     Inr \<lparr>cid = parseInt a,
          cvalue = (if length b = 3 then Some ''10'' else char_at b 0),
          rank = indexOf CARDS (if length b = 3 then Some ''10'' else char_at b 0) + 1,
          suit = find (\<lambda>s. Some (svalue s) = (if length b = 3 then char_at b 2 else char_at b 1)) SUITS\<rparr>"
  unfolding parse_card_def split_on_token[OF a b]
  by (simp add: at_index_def Let_def)

lemma label_shape: "v \<in> set CARDS \<Longrightarrow> v = ''10'' \<or> length v = 1"
  by (auto simp: CARDS_def)

lemma label_no_hash: "v \<in> set CARDS \<Longrightarrow> CHR ''#'' \<notin> set v"
  by (auto simp: CARDS_def)

lemma suit_shape: "s \<in> set SUITS \<Longrightarrow> length (svalue s) = 1 \<and> CHR ''#'' \<notin> set (svalue s)"
  by (auto simp: SUITS_def)

lemma suit_find: "s \<in> set SUITS \<Longrightarrow> find (\<lambda>t. svalue t = svalue s) SUITS = Some s"
  by (auto simp: SUITS_def)

lemma char_at_single:
  "length v = 1 \<Longrightarrow> length w = 1 \<Longrightarrow> char_at (v @ w) 0 = Some v \<and> char_at (v @ w) 1 = Some w"
  by (cases v; cases w) (auto simp: char_at_def at_index_def)

lemma char_at_ten: "length w = 1 \<Longrightarrow> char_at (''10'' @ w) 2 = Some w"
  by (cases w) (auto simp: char_at_def at_index_def)

lemma label_suit_cases:
  assumes v: "v \<in> set CARDS" and s: "s \<in> set SUITS"
  shows "CHR ''#'' \<notin> set (v @ svalue s)"
    and "(if length (v @ svalue s) = 3 then Some ''10'' else char_at (v @ svalue s) 0) = Some v"
    and "find (\<lambda>t. Some (svalue t) = (if length (v @ svalue s) = 3 then char_at (v @ svalue s) 2
            else char_at (v @ svalue s) 1)) SUITS = Some s"
proof -
  have w: "length (svalue s) = 1" using suit_shape[OF s] by simp
  show "CHR ''#'' \<notin> set (v @ svalue s)"
    using label_no_hash[OF v] suit_shape[OF s] by simp
  from label_shape[OF v] show
    "(if length (v @ svalue s) = 3 then Some ''10'' else char_at (v @ svalue s) 0) = Some v"
  proof
    assume "v = ''10''" then show ?thesis using w by simp
  next
    assume "length v = 1" then show ?thesis using w char_at_single[of v "svalue s"] by simp
  qed
  have "(if length (v @ svalue s) = 3 then char_at (v @ svalue s) 2
            else char_at (v @ svalue s) 1) = Some (svalue s)"
    using label_shape[OF v]
  proof
    assume "v = ''10''" then show ?thesis using w char_at_ten[of "svalue s"] by simp
  next
    assume "length v = 1" then show ?thesis using w char_at_single[of v "svalue s"] by simp
  qed
  then show "find (\<lambda>t. Some (svalue t) = (if length (v @ svalue s) = 3 then char_at (v @ svalue s) 2
            else char_at (v @ svalue s) 1)) SUITS = Some s"
    using suit_find[OF s] by simp
qed

lemma parse_stringify_card:
  assumes "valid_card c"
  shows "\<exists>t. stringify_card c = Inr t \<and> parse_card t = Inr c"
proof -
  from assms obtain n v s where c: "cid c = Num n" "cvalue c = Some v" "suit c = Some s"
    and num: "is_number n" and n: "0 \<le> n" "n < 10 ^ 21"
    and v: "v \<in> set CARDS" and r: "rank c = indexOf CARDS (Some v) + 1"
    and s: "s \<in> set SUITS"
    by (auto simp: valid_card_def split: jsnum.splits option.splits)
  from Number_toString_parseInt[OF num n] obtain a
    where a: "Number_toString (Num n) = a" "CHR ''#'' \<notin> set a" "parseInt a = Num n"
    by blast
  have str: "stringify_card c = Inr (a @ ''#'' @ (v @ svalue s))"
    using c a(1) by (simp add: stringify_card_def String_toString_def)
  have "parse_card (a @ ''#'' @ (v @ svalue s)) =
      Inr \<lparr>cid = Num n, cvalue = Some v, rank = indexOf CARDS (Some v) + 1, suit = Some s\<rparr>"
    unfolding parse_card_token[OF a(2) label_suit_cases(1)[OF v s]] label_suit_cases(2,3)[OF v s]
    by (simp add: a(3))
  also have "\<dots> = Inr c" using c r by simp
  finally show ?thesis using str by blast
qed

text \<open>
  Claim C1, as the code has it.  The claim takes for the id of a valid card any non-negative
  integer.  The number \<open>10 ^ 21\<close> is one, and with the value \<^verbatim>\<open>A\<close>, the rank 13 and the first suit
  record of the catalog it makes a card that is valid in the sense of the claim.  The
  template literal of \<^verbatim>\<open>stringify\<close> prints a number from \<open>10 ^ 21\<close> on in exponent form, so the
  token of this card is \<^verbatim>\<open>1e+21#AS\<close>; \<^verbatim>\<open>parseInt\<close> stops at the letter \<^verbatim>\<open>e\<close>, and \<^verbatim>\<open>parse\<close> returns
  a card with the id 1: the round trip does not give the card back.
\<close>

theorem parse_stringify_counterexample:
  "is_number (10 ^ 21) \<and> (0 :: int) \<le> 10 ^ 21 \<and>
   ''A'' \<in> set CARDS \<and> indexOf CARDS (Some ''A'') + 1 = 13 \<and> SUITS ! 0 \<in> set SUITS \<and>
   stringify [\<lparr>cid = Num (10 ^ 21), cvalue = Some ''A'', rank = 13, suit = Some (SUITS ! 0)\<rparr>] =
     Inr [''1e+21#AS''] \<and>
   parse [''1e+21#AS''] =
     Inr [\<lparr>cid = Num 1, cvalue = Some ''A'', rank = 13, suit = Some (SUITS ! 0)\<rparr>] \<and>
   parse [''1e+21#AS''] \<noteq>
     Inr [\<lparr>cid = Num (10 ^ 21), cvalue = Some ''A'', rank = 13, suit = Some (SUITS ! 0)\<rparr>]"
proof -
  have n: "is_number (10 ^ 21)" by code_simp
  have a: "''A'' \<in> set CARDS" by code_simp
  have r: "indexOf CARDS (Some ''A'') + 1 = 13" by code_simp
  have u: "SUITS ! 0 \<in> set SUITS" by code_simp
  have s: "stringify [\<lparr>cid = Num (10 ^ 21), cvalue = Some ''A'', rank = 13,
      suit = Some (SUITS ! 0)\<rparr>] = Inr [''1e+21#AS'']"
    by code_simp
  have p: "parse [''1e+21#AS''] =
      Inr [\<lparr>cid = Num 1, cvalue = Some ''A'', rank = 13, suit = Some (SUITS ! 0)\<rparr>]"
    by code_simp
  have d: "parse [''1e+21#AS''] \<noteq>
      Inr [\<lparr>cid = Num (10 ^ 21), cvalue = Some ''A'', rank = 13, suit = Some (SUITS ! 0)\<rparr>]"
    unfolding p by simp
  show ?thesis using n a r u s p d by simp
qed

text \<open>
  Claim C1, amended.  For every sequence of valid cards, the ids being numbers with a
  non-negative integer value below \<open>10 ^ 21\<close>, \<^verbatim>\<open>stringify\<close> returns tokens and \<^verbatim>\<open>parse\<close> of these
  tokens returns the cards again.  Below \<open>10 ^ 21\<close> a number prints as a run of decimal digits
  that \<^verbatim>\<open>parseInt\<close> rounds back to it; past \<open>2 ^ 53\<close> these need not be the digits of the number
  itself, \<open>2 ^ 60\<close> prints as \<^verbatim>\<open>1152921504606847000\<close>.  The value \<^verbatim>\<open>10\<close> takes the path of a card
  part of length 3, every other value the path of length 2.
\<close>

theorem parse_stringify_roundtrip:
  "list_all valid_card cards \<Longrightarrow> \<exists>ts. stringify cards = Inr ts \<and> parse ts = Inr cards"
proof (induction cards)
  case Nil
  show ?case by (simp add: stringify_def parse_def)
next
  case (Cons c cards)
  then obtain ts where ts: "stringify cards = Inr ts" "parse ts = Inr cards"
    by auto
  from Cons.prems obtain t where t: "stringify_card c = Inr t" "parse_card t = Inr c"
    using parse_stringify_card by auto
  have "stringify (c # cards) = Inr (t # ts)" "parse (t # ts) = Inr (c # cards)"
    using ts t by (simp_all add: stringify_def parse_def)
  then show ?case by blast
qed

theorem parse_stringify_roundtrip_witness:
  "list_all valid_card
     [\<lparr>cid = Num 8, cvalue = Some ''10'', rank = 9, suit = Some (SUITS ! 0)\<rparr>,
      \<lparr>cid = Num (2 ^ 60), cvalue = Some ''A'', rank = 13, suit = Some (SUITS ! 0)\<rparr>] \<and>
   stringify
     [\<lparr>cid = Num 8, cvalue = Some ''10'', rank = 9, suit = Some (SUITS ! 0)\<rparr>,
      \<lparr>cid = Num (2 ^ 60), cvalue = Some ''A'', rank = 13, suit = Some (SUITS ! 0)\<rparr>] =
     Inr [''8#10S'', ''1152921504606847000#AS''] \<and>
   parse [''8#10S'', ''1152921504606847000#AS''] =
     Inr [\<lparr>cid = Num 8, cvalue = Some ''10'', rank = 9, suit = Some (SUITS ! 0)\<rparr>,
          \<lparr>cid = Num (2 ^ 60), cvalue = Some ''A'', rank = 13, suit = Some (SUITS ! 0)\<rparr>]"
proof -
  let ?cards = "[\<lparr>cid = Num 8, cvalue = Some ''10'', rank = 9, suit = Some (SUITS ! 0)\<rparr>,
      \<lparr>cid = Num (2 ^ 60), cvalue = Some ''A'', rank = 13, suit = Some (SUITS ! 0)\<rparr>]"
  have v: "list_all valid_card ?cards" by code_simp
  have s: "stringify ?cards = Inr [''8#10S'', ''1152921504606847000#AS'']" by code_simp
  from parse_stringify_roundtrip[OF v] s show ?thesis using v by auto
qed

subsection \<open>Construction\<close>

lemma fill_suits_catalog:
  "fill_suits 0 \<lparr>deck = [], next_id = 0\<rparr> = \<lparr>deck = catalog_order, next_id = 52\<rparr>"
  by code_simp

lemma deck_new_Deck:
  "deck (new_Deck shuffle preShuffle) = (if preShuffle then shuffle catalog_order else catalog_order)"
  by (simp add: new_Deck_def fill_suits_catalog)

lemma catalog_order_length: "length catalog_order = 52"
  by code_simp

lemma catalog_order_ids: "map cid catalog_order = map (\<lambda>n. Num (int n)) [0..<52]"
  by code_simp

lemma catalog_order_pairs:
  "map (\<lambda>c. (cvalue c, suit c)) catalog_order =
     concat (map (\<lambda>s. map (\<lambda>v. (Some v, Some s)) CARDS) SUITS)"
  by code_simp

lemma catalog_order_distinct_pairs:
  "distinct (map (\<lambda>c. (cvalue c, map_option svalue (suit c))) catalog_order)"
  by code_simp

lemma catalog_order_set_pairs:
  "set (map (\<lambda>c. (cvalue c, map_option svalue (suit c))) catalog_order) =
     (\<lambda>(v, s). (Some v, Some (svalue s))) ` (set CARDS \<times> set SUITS)"
  by code_simp

lemma catalog_order_distinct_ids: "distinct (map cid catalog_order)"
  by code_simp

lemma catalog_order_set_ids: "set (map cid catalog_order) = (\<lambda>n. Num (int n)) ` {0..51}"
proof -
  have "{0..51::nat} = set [0..<52]" by auto
  then show ?thesis by (simp only: catalog_order_ids set_map)
qed

lemma catalog_order_rank_consistent: "list_all rank_consistent catalog_order"
  by code_simp

lemma mset_map_new_Deck:
  assumes "\<And>xs. mset (shuffle xs) = mset xs"
  shows "mset (map f (deck (new_Deck shuffle preShuffle))) = mset (map f catalog_order)"
  using assms by (simp add: deck_new_Deck)

text \<open>
  Claim C2.  Whatever the flag \<^verbatim>\<open>preShuffle\<close>, a new deck holds exactly 52 cards, every pair
  of a value and a suit value exactly once, and the ids are the numbers 0 to 51 with no
  duplicate.  With the flag false the cards are in the order of the catalog, the suits
  S, H, D, C outside and the labels 2 to A inside, with the ids 0 to 51 in that order; with
  the flag true the deck is a permutation of the same 52 cards.  \<^verbatim>\<open>shuffle\<close> returns a
  permutation of its argument.
\<close>

theorem new_Deck_52_cards:
  assumes "\<And>xs. mset (shuffle xs) = mset xs"
  shows
    "length (deck (new_Deck shuffle preShuffle)) = 52 \<and>
     distinct (map (\<lambda>c. (cvalue c, map_option svalue (suit c))) (deck (new_Deck shuffle preShuffle))) \<and>
     set (map (\<lambda>c. (cvalue c, map_option svalue (suit c))) (deck (new_Deck shuffle preShuffle))) =
       (\<lambda>(v, s). (Some v, Some (svalue s))) ` (set CARDS \<times> set SUITS) \<and>
     distinct (map cid (deck (new_Deck shuffle preShuffle))) \<and>
     set (map cid (deck (new_Deck shuffle preShuffle))) = (\<lambda>n. Num (int n)) ` {0..51} \<and>
     map (\<lambda>c. (cvalue c, suit c)) (deck (new_Deck shuffle False)) =
       concat (map (\<lambda>s. map (\<lambda>v. (Some v, Some s)) CARDS) SUITS) \<and>
     map cid (deck (new_Deck shuffle False)) = map (\<lambda>n. Num (int n)) [0..<52] \<and>
     mset (deck (new_Deck shuffle True)) = mset (deck (new_Deck shuffle False))"
proof -
  let ?d = "deck (new_Deck shuffle preShuffle)"
  let ?p = "\<lambda>c. (cvalue c, map_option svalue (suit c))"
  have m: "mset ?d = mset catalog_order"
    using mset_map_new_Deck[OF assms, of "\<lambda>c. c" preShuffle] by simp
  have "length ?d = 52"
    using mset_eq_length[OF m] by (simp add: catalog_order_length)
  moreover have "distinct (map ?p ?d)"
    using mset_eq_imp_distinct_iff[OF mset_map_new_Deck[OF assms, of ?p preShuffle]]
      catalog_order_distinct_pairs by simp
  moreover have "set (map ?p ?d) = (\<lambda>(v, s). (Some v, Some (svalue s))) ` (set CARDS \<times> set SUITS)"
    using mset_eq_setD[OF mset_map_new_Deck[OF assms, of ?p preShuffle]]
      catalog_order_set_pairs by simp
  moreover have "distinct (map cid ?d)"
    using mset_eq_imp_distinct_iff[OF mset_map_new_Deck[OF assms, of cid preShuffle]]
      catalog_order_distinct_ids by simp
  moreover have "set (map cid ?d) = (\<lambda>n. Num (int n)) ` {0..51}"
    using mset_eq_setD[OF mset_map_new_Deck[OF assms, of cid preShuffle]]
      catalog_order_set_ids by simp
  moreover have "map (\<lambda>c. (cvalue c, suit c)) (deck (new_Deck shuffle False)) =
       concat (map (\<lambda>s. map (\<lambda>v. (Some v, Some s)) CARDS) SUITS)"
    by (simp add: deck_new_Deck catalog_order_pairs)
  moreover have "map cid (deck (new_Deck shuffle False)) = map (\<lambda>n. Num (int n)) [0..<52]"
    by (simp add: deck_new_Deck catalog_order_ids)
  moreover have "mset (deck (new_Deck shuffle True)) = mset (deck (new_Deck shuffle False))"
    using assms by (simp add: deck_new_Deck)
  ultimately show ?thesis by blast
qed

theorem new_Deck_52_cards_witness:
  "(\<forall>xs :: Card list. mset (rev xs) = mset xs) \<and>
   length (deck (new_Deck rev True)) = 52 \<and>
   distinct (map cid (deck (new_Deck rev True))) \<and>
   map cid (deck (new_Deck rev False)) = map (\<lambda>n. Num (int n)) [0..<52] \<and>
   mset (deck (new_Deck rev True)) = mset (deck (new_Deck rev False))"
proof -
  have r: "\<And>xs :: Card list. mset (rev xs) = mset xs" by simp
  from new_Deck_52_cards[of rev, OF r, of True] new_Deck_52_cards[of rev, OF r, of False]
  show ?thesis by simp
qed

text \<open>
  Claim C5.  Every card that the constructor produces has its rank equal to the index of
  its value in the catalog of rank labels plus one.  No later operation rewrites a card:
  \<^verbatim>\<open>sort\<close> returns the cards it was given, \<^verbatim>\<open>getCards\<close> returns cards of the deck and leaves
  cards of the deck, and the shuffle of the constructor permutes; so the ranks stay
  consistent.
\<close>

theorem rank_consistent_preserved:
  assumes "\<And>xs. mset (shuffle xs) = mset xs"
  shows
    "list_all rank_consistent (deck (new_Deck shuffle preShuffle)) \<and>
     list_all (\<lambda>c. \<exists>i < 13. cvalue c = Some (CARDS ! i) \<and> rank c = int i + 1)
       (deck (new_Deck shuffle preShuffle)) \<and>
     set (Deck_sort cards) = set cards \<and>
     set (fst (getCards amount d)) \<subseteq> Some ` set (deck d) \<and>
     set (deck (snd (getCards amount d))) \<subseteq> set (deck d) \<and>
     (list_all rank_consistent cards \<longrightarrow> list_all rank_consistent (Deck_sort cards)) \<and>
     (list_all rank_consistent (deck d) \<longrightarrow>
        list_all (\<lambda>c. case c of None \<Rightarrow> False | Some c \<Rightarrow> rank_consistent c) (fst (getCards amount d)) \<and>
        list_all rank_consistent (deck (snd (getCards amount d))))"
proof -
  have s: "set (deck (new_Deck shuffle preShuffle)) = set catalog_order"
    using mset_eq_setD[OF mset_map_new_Deck[OF assms, of "\<lambda>c. c" preShuffle]] by simp
  have c1: "list_all rank_consistent (deck (new_Deck shuffle preShuffle))"
    using catalog_order_rank_consistent by (simp add: list_all_iff s)
  have "list_all (\<lambda>c. \<exists>i < 13. cvalue c = Some (CARDS ! i) \<and> rank c = int i + 1) catalog_order"
    by (auto simp: catalog_order_def list_all_iff)
  then have c2: "list_all (\<lambda>c. \<exists>i < 13. cvalue c = Some (CARDS ! i) \<and> rank c = int i + 1)
       (deck (new_Deck shuffle preShuffle))"
    by (simp add: list_all_iff s)
  have c3: "set (Deck_sort cards) = set cards"
    using mset_eq_setD[OF mset_array_sort] by (simp add: Deck_sort_def)
  have c4: "set (fst (getCards amount d)) \<subseteq> Some ` set (deck d)"
    using set_take_subset[of "nat amount" "deck d"] by (auto simp: getCards_eq)
  have c5: "set (deck (snd (getCards amount d))) \<subseteq> set (deck d)"
    using set_drop_subset[of "nat amount" "deck d"] by (auto simp: getCards_eq)
  have c6: "list_all rank_consistent cards \<longrightarrow> list_all rank_consistent (Deck_sort cards)"
    by (simp add: list_all_iff c3)
  have c7: "list_all rank_consistent (deck d) \<longrightarrow>
        list_all (\<lambda>c. case c of None \<Rightarrow> False | Some c \<Rightarrow> rank_consistent c) (fst (getCards amount d)) \<and>
        list_all rank_consistent (deck (snd (getCards amount d)))"
    using c4 c5 by (auto simp: list_all_iff split: option.splits)
  from c1 c2 c3 c4 c5 c6 c7 show ?thesis by blast
qed

theorem rank_consistent_preserved_witness:
  "(\<forall>xs :: Card list. mset (rev xs) = mset xs) \<and>
   list_all rank_consistent (deck (new_Deck rev True)) \<and>
   list_all rank_consistent (Deck_sort (deck (new_Deck rev True))) \<and>
   list_all rank_consistent (deck (snd (getCards 5 (new_Deck rev True))))"
proof -
  have r: "\<And>xs :: Card list. mset (rev xs) = mset xs" by simp
  from rank_consistent_preserved[of rev True "deck (new_Deck rev True)" 5 "new_Deck rev True", OF r]
  show ?thesis by simp
qed

lemma length_split_on: "length (split_on sep s) = Suc (length (filter (\<lambda>c. c = sep) s))"
  by (induction s) (auto split: list.splits)

lemma split_on_no_sep: "sep \<notin> set s \<Longrightarrow> at_index (split_on sep s) 1 = None"
  by (simp add: split_on_none at_index_def)

lemma split_on_has_sep:
  assumes "sep \<in> set s"
  shows "\<exists>crd. at_index (split_on sep s) 1 = Some crd"
proof -
  have "filter (\<lambda>c. c = sep) s \<noteq> []"
    using assms by (simp add: filter_empty_conv)
  then have "1 < length (split_on sep s)"
    by (simp add: length_split_on)
  then show ?thesis by (simp add: at_index_def)
qed

lemma parse_card_no_hash: "CHR ''#'' \<notin> set tok \<Longrightarrow> parse_card tok = Inl TypeError"
  using split_on_no_sep[of "CHR ''#''" tok] by (simp add: parse_card_def Let_def)

lemma parse_card_hash:
  assumes "CHR ''#'' \<in> set tok"
  shows "\<exists>c. parse_card tok = Inr c \<and>
     suit c = find (\<lambda>s. Some (svalue s) = suit_character tok) SUITS"
proof -
  from split_on_has_sep[OF assms] obtain crd where
    "at_index (split_on CHR ''#'' tok) 1 = Some crd" by blast
  then show ?thesis
    unfolding parse_card_def suit_character_def Let_def by simp
qed

lemma parse_tokens_hash:
  assumes "\<forall>t \<in> set tokens. CHR ''#'' \<in> set t"
  shows "\<exists>cards. parse tokens = Inr cards \<and> length cards = length tokens \<and>
     (\<forall>i < length tokens. suit (cards ! i) =
        find (\<lambda>s. Some (svalue s) = suit_character (tokens ! i)) SUITS)"
  using assms
proof (induction tokens)
  case Nil
  show ?case by (simp add: parse_def)
next
  case (Cons t tokens)
  then obtain cards where cs: "parse tokens = Inr cards" "length cards = length tokens"
    "\<forall>i < length tokens. suit (cards ! i) =
        find (\<lambda>s. Some (svalue s) = suit_character (tokens ! i)) SUITS"
    by auto
  from Cons.prems obtain c where c: "parse_card t = Inr c"
    "suit c = find (\<lambda>s. Some (svalue s) = suit_character t) SUITS"
    using parse_card_hash[of t] by auto
  have "parse (t # tokens) = Inr (c # cards)"
    using cs(1) c(1) by (simp add: parse_def)
  moreover have "\<forall>i < length (t # tokens). suit ((c # cards) ! i) =
        find (\<lambda>s. Some (svalue s) = suit_character ((t # tokens) ! i)) SUITS"
    using cs(3) c(2) by (auto simp: nth_Cons split: nat.splits)
  ultimately show ?case using cs(2) by auto
qed

lemma parse_token_no_hash:
  "t \<in> set tokens \<Longrightarrow> CHR ''#'' \<notin> set t \<Longrightarrow> parse tokens = Inl TypeError"
proof (induction tokens)
  case Nil
  then show ?case by simp
next
  case (Cons a tokens)
  show ?case
  proof (cases "CHR ''#'' \<in> set a")
    case True
    then obtain c where "parse_card a = Inr c" using parse_card_hash by blast
    moreover have "parse tokens = Inl TypeError" using Cons True by auto
    ultimately show ?thesis by (simp add: parse_def)
  next
    case False
    then show ?thesis by (simp add: parse_def parse_card_no_hash)
  qed
qed

text \<open>
  Claim C7.  A token with a card part, that is one holding the separator \<^verbatim>\<open>#\<close>, whose suit
  character matches no record of the suit catalog does not make \<^verbatim>\<open>parse\<close> raise: \<^verbatim>\<open>parse\<close>
  returns a card for every token, and the suit of that card is \<^verbatim>\<open>undefined\<close>.  A token with
  no \<^verbatim>\<open>#\<close> has no card part and no suit character; on it \<^verbatim>\<open>parse\<close> throws a \<^verbatim>\<open>TypeError\<close>.
\<close>

theorem parse_unknown_suit:
  "((\<forall>t \<in> set tokens. CHR ''#'' \<in> set t) \<longrightarrow>
      (\<exists>cards. parse tokens = Inr cards \<and> length cards = length tokens \<and>
         (\<forall>i < length tokens.
            (\<forall>s \<in> set SUITS. Some (svalue s) \<noteq> suit_character (tokens ! i)) \<longrightarrow>
            suit (cards ! i) = None))) \<and>
   ((\<exists>t \<in> set tokens. CHR ''#'' \<notin> set t) \<longrightarrow> parse tokens = Inl TypeError)"
proof (intro conjI impI)
  assume "\<forall>t \<in> set tokens. CHR ''#'' \<in> set t"
  from parse_tokens_hash[OF this] obtain cards where cs: "parse tokens = Inr cards"
    "length cards = length tokens"
    "\<forall>i < length tokens. suit (cards ! i) =
        find (\<lambda>s. Some (svalue s) = suit_character (tokens ! i)) SUITS"
    by blast
  have "\<forall>i < length tokens.
            (\<forall>s \<in> set SUITS. Some (svalue s) \<noteq> suit_character (tokens ! i)) \<longrightarrow>
            suit (cards ! i) = None"
    using cs(3) by (simp add: find_None_iff)
  with cs(1,2) show "\<exists>cards. parse tokens = Inr cards \<and> length cards = length tokens \<and>
         (\<forall>i < length tokens.
            (\<forall>s \<in> set SUITS. Some (svalue s) \<noteq> suit_character (tokens ! i)) \<longrightarrow>
            suit (cards ! i) = None)"
    by blast
next
  assume "\<exists>t \<in> set tokens. CHR ''#'' \<notin> set t"
  then show "parse tokens = Inl TypeError"
    using parse_token_no_hash by blast
qed

theorem parse_unknown_suit_witness:
  "CHR ''#'' \<in> set ''1#AX'' \<and> CHR ''#'' \<in> set ''7#10Z'' \<and>
   suit_character ''1#AX'' = Some ''X'' \<and> suit_character ''7#10Z'' = Some ''Z'' \<and>
   parse [''1#AX'', ''7#10Z''] =
     Inr [\<lparr>cid = Num 1, cvalue = Some ''A'', rank = 13, suit = None\<rparr>,
          \<lparr>cid = Num 7, cvalue = Some ''10'', rank = 9, suit = None\<rparr>] \<and>
   parse [''1#AS'', ''AX''] = Inl TypeError"
proof -
  have p: "parse [''1#AX'', ''7#10Z''] =
     Inr [\<lparr>cid = Num 1, cvalue = Some ''A'', rank = 13, suit = None\<rparr>,
          \<lparr>cid = Num 7, cvalue = Some ''10'', rank = 9, suit = None\<rparr>]"
    by code_simp
  have s: "suit_character ''1#AX'' = Some ''X''" "suit_character ''7#10Z'' = Some ''Z''"
    by code_simp+
  from parse_unknown_suit[of "[''1#AS'', ''AX'']"] have "parse [''1#AS'', ''AX''] = Inl TypeError"
    by simp
  with p s show ?thesis by simp
qed

subsection \<open>Validation and description\<close>

lemma validate_iff:
  "validate obj = ({''id'', ''value'', ''rank'', ''suit''} \<subseteq> set (Object_keys obj))"
  by (simp add: validate_def array_includes_def Let_def)

text \<open>
  Claim C6.  \<^verbatim>\<open>validate\<close> returns true if and only if the object has the four keys \<^verbatim>\<open>id\<close>,
  \<^verbatim>\<open>value\<close>, \<^verbatim>\<open>rank\<close> and \<^verbatim>\<open>suit\<close>, whatever the values under them: two objects with the same keys
  validate alike, the object \<^verbatim>\<open>{id:1, value:"Z", rank:99, suit:{}}\<close> validates, and an object
  without one of the four keys does not.
\<close>

theorem validate_four_keys:
  "validate obj = ({''id'', ''value'', ''rank'', ''suit''} \<subseteq> set (Object_keys obj)) \<and>
   (Object_keys obj = Object_keys obj' \<longrightarrow> validate obj = validate obj') \<and>
   validate [(''id'', JNumber (Num 1)), (''value'', JString ''Z''), (''rank'', JNumber (Num 99)),
             (''suit'', JObject [])] \<and>
   (\<forall>k \<in> {''id'', ''value'', ''rank'', ''suit''}. \<not> validate (filter (\<lambda>p. fst p \<noteq> k) obj))"
  by (auto simp: validate_iff Object_keys_def)

theorem validate_four_keys_witness:
  "validate [(''id'', JNumber (Num 1)), (''value'', JString ''Z''), (''rank'', JNumber (Num 99)),
             (''suit'', JObject [])] \<and>
   \<not> validate [(''id'', JNumber (Num 1)), (''value'', JString ''Z''), (''rank'', JNumber (Num 99))] \<and>
   validate [(''id'', JNull), (''value'', JNull), (''rank'', JNull), (''suit'', JNull)]"
proof -
  let ?obj = "[(''id'', JNumber (Num 1)), (''value'', JString ''Z''), (''rank'', JNumber (Num 99)),
             (''suit'', JObject [])]"
  from validate_four_keys[of ?obj "[(''id'', JNull), (''value'', JNull), (''rank'', JNull), (''suit'', JNull)]"]
  show ?thesis by (auto simp: Object_keys_def)
qed

lemma and_then_Inr: "and_then (Inr x) f = f x"
  by (simp add: and_then_def)

lemma getCardDescription_invalid: "\<not> validate obj \<Longrightarrow> getCardDescription obj = Inr ''''"
  by (simp add: getCardDescription_def)

lemma getCardDescription_valid:
  assumes "validate obj"
    and "get_member obj ''value'' = JString v" and "map_of CARDS_TEXT v = Some cardText"
    and "get_member obj ''suit'' = JObject s" and "get_member s ''value'' = JString sv"
    and "map_of SUITS_TEXT sv = Some suitText"
  shows "getCardDescription obj = Inr (cardText @ '' of '' @ suitText)"
  using assms
  by (simp add: getCardDescription_def getCardText_def getSuitText_def and_then_Inr ToString_def
      dot_value_def lookup_text_def)

text \<open>
  Claim C8, as the code has it.  The claim's example is an object with the two keys \<^verbatim>\<open>value\<close>
  and \<^verbatim>\<open>suit\<close> only: \<^verbatim>\<open>validate\<close> fails on it and the description is the empty string, not
  \<^verbatim>\<open>King of Hearts\<close>.  And an object may pass \<^verbatim>\<open>validate\<close> with its suit \<^verbatim>\<open>undefined\<close>, as the card
  that \<^verbatim>\<open>parse\<close> returns for an unknown suit character does; on it the description is no
  string, a \<^verbatim>\<open>TypeError\<close> is thrown.
\<close>

theorem getCardDescription_counterexample:
  "getCardDescription [(''value'', JString ''K''), (''suit'', JObject [(''value'', JString ''H'')])] = Inr '''' \<and>
   getCardDescription [(''value'', JString ''K''), (''suit'', JObject [(''value'', JString ''H'')])]
     \<noteq> Inr ''King of Hearts'' \<and>
   validate (card_object \<lparr>cid = Num 1, cvalue = Some ''K'', rank = 12, suit = None\<rparr>) \<and>
   getCardDescription (card_object \<lparr>cid = Num 1, cvalue = Some ''K'', rank = 12, suit = None\<rparr>) =
     Inl TypeError"
  by code_simp

text \<open>
  Claim C8, amended.  \<^verbatim>\<open>getCardDescription\<close> returns the empty string when \<^verbatim>\<open>validate\<close> fails.
  When \<^verbatim>\<open>validate\<close> passes, the value is a string with a rank display text, and the suit is
  an object whose value is a string with a suit display text, it returns the rank text,
  \<^verbatim>\<open> of \<close> and the suit text; so an object with all four keys, the value \<^verbatim>\<open>K\<close> and the suit value
  \<^verbatim>\<open>H\<close> gives \<^verbatim>\<open>King of Hearts\<close>.
\<close>

theorem getCardDescription_text:
  "(\<not> validate obj \<longrightarrow> getCardDescription obj = Inr '''') \<and>
   (validate obj \<and>
    get_member obj ''value'' = JString v \<and> map_of CARDS_TEXT v = Some cardText \<and>
    get_member obj ''suit'' = JObject s \<and> get_member s ''value'' = JString sv \<and>
    map_of SUITS_TEXT sv = Some suitText \<longrightarrow>
    getCardDescription obj = Inr (cardText @ '' of '' @ suitText)) \<and>
   (validate obj \<and> get_member obj ''value'' = JString ''K'' \<and>
    get_member obj ''suit'' = JObject s \<and> get_member s ''value'' = JString ''H'' \<longrightarrow>
    getCardDescription obj = Inr ''King of Hearts'')"
proof -
  have k: "map_of CARDS_TEXT ''K'' = Some ''King''" by (simp add: CARDS_TEXT_def)
  have h: "map_of SUITS_TEXT ''H'' = Some ''Hearts''" by (simp add: SUITS_TEXT_def)
  show ?thesis
    using getCardDescription_invalid[of obj] getCardDescription_valid[of obj v cardText s sv suitText]
      getCardDescription_valid[of obj "''K''" "''King''" s "''H''" "''Hearts''", OF _ _ k _ _ h]
    by auto
qed

theorem getCardDescription_text_witness:
  "\<not> validate [(''value'', JString ''K''), (''suit'', JObject [(''value'', JString ''H'')])] \<and>
   getCardDescription [(''value'', JString ''K''), (''suit'', JObject [(''value'', JString ''H'')])] = Inr '''' \<and>
   validate (card_object \<lparr>cid = Num 24, cvalue = Some ''K'', rank = 12, suit = Some (SUITS ! 1)\<rparr>) \<and>
   getCardDescription (card_object \<lparr>cid = Num 24, cvalue = Some ''K'', rank = 12, suit = Some (SUITS ! 1)\<rparr>) =
     Inr ''King of Hearts''"
proof -
  let ?two = "[(''value'', JString ''K''), (''suit'', JObject [(''value'', JString ''H'')])]"
  let ?card = "card_object \<lparr>cid = Num 24, cvalue = Some ''K'', rank = 12, suit = Some (SUITS ! 1)\<rparr>"
  have n: "\<not> validate ?two" by code_simp
  have v: "validate ?card" by code_simp
  have g: "get_member ?card ''value'' = JString ''K''"
    "get_member ?card ''suit'' = JObject [(''value'', JString ''H''), (''color'', JString ''red''),
        (''utf'', JString [CHR 0xE2, CHR 0x99, CHR 0xA5])]"
    "get_member [(''value'', JString ''H''), (''color'', JString ''red''),
        (''utf'', JString [CHR 0xE2, CHR 0x99, CHR 0xA5])] ''value'' = JString ''H''"
    by code_simp+
  from getCardDescription_text[of ?two] n have a: "getCardDescription ?two = Inr ''''" by blast
  from getCardDescription_text[of ?card _ _ "[(''value'', JString ''H''), (''color'', JString ''red''),
        (''utf'', JString [CHR 0xE2, CHR 0x99, CHR 0xA5])]"] v g
  have b: "getCardDescription ?card = Inr ''King of Hearts''" by blast
  from n v a b show ?thesis by blast
qed

subsection \<open>What \<^verbatim>\<open>sort\<close> writes\<close>

text \<open>
  Claim C10, as the code has it.  The field \<^verbatim>\<open>deck\<close> is private to the type checker only,
  and nothing in \<^verbatim>\<open>sort\<close> tells the argument from the array of the instance: called with
  that array, \<^verbatim>\<open>sort\<close> reorders the deck itself.
\<close>

theorem sort_in_place_counterexample:
  "snd (sort_in_place \<lparr>deck_ref = 0, id_counter = 2\<rparr> 0
          ((\<lambda>r. None)(0 \<mapsto>
             [\<lparr>cid = Num 0, cvalue = Some ''2'', rank = 1, suit = Some (SUITS ! 0)\<rparr>,
              \<lparr>cid = Num 1, cvalue = Some ''3'', rank = 2, suit = Some (SUITS ! 0)\<rparr>])))
     (deck_ref \<lparr>deck_ref = 0, id_counter = 2\<rparr>) =
   Some [\<lparr>cid = Num 1, cvalue = Some ''3'', rank = 2, suit = Some (SUITS ! 0)\<rparr>,
         \<lparr>cid = Num 0, cvalue = Some ''2'', rank = 1, suit = Some (SUITS ! 0)\<rparr>] \<and>
   snd (sort_in_place \<lparr>deck_ref = 0, id_counter = 2\<rparr> 0
          ((\<lambda>r. None)(0 \<mapsto>
             [\<lparr>cid = Num 0, cvalue = Some ''2'', rank = 1, suit = Some (SUITS ! 0)\<rparr>,
              \<lparr>cid = Num 1, cvalue = Some ''3'', rank = 2, suit = Some (SUITS ! 0)\<rparr>])))
     (deck_ref \<lparr>deck_ref = 0, id_counter = 2\<rparr>) \<noteq>
   ((\<lambda>r. None)(0 \<mapsto>
             [\<lparr>cid = Num 0, cvalue = Some ''2'', rank = 1, suit = Some (SUITS ! 0)\<rparr>,
              \<lparr>cid = Num 1, cvalue = Some ''3'', rank = 2, suit = Some (SUITS ! 0)\<rparr>]))
     (deck_ref \<lparr>deck_ref = 0, id_counter = 2\<rparr>)"
  by (simp add: sort_in_place_def Deck_sort_def array_sort_def)

text \<open>
  Claim C10, amended.  For every instance, every store and every argument array,
  \<^verbatim>\<open>sort(cards)\<close> returns the reference it was given, the array behind it is reordered in
  place, and no other array of the store is written; so the array of the instance is
  unchanged whenever the argument is another array.  The call reads no field of the
  instance: its result is the same for every instance.
\<close>

theorem sort_in_place_frame:
  "fst (sort_in_place this cards st) = cards \<and>
   snd (sort_in_place this cards st) cards = map_option Deck_sort (st cards) \<and>
   (\<forall>r. r \<noteq> cards \<longrightarrow> snd (sort_in_place this cards st) r = st r) \<and>
   (cards \<noteq> deck_ref this \<longrightarrow>
      snd (sort_in_place this cards st) (deck_ref this) = st (deck_ref this)) \<and>
   sort_in_place this cards st = sort_in_place this' cards st"
  by (auto simp: sort_in_place_def split: option.splits)

theorem sort_in_place_frame_witness:
  "(1 :: ref) \<noteq> deck_ref \<lparr>deck_ref = 0, id_counter = 2\<rparr> \<and>
   fst (sort_in_place \<lparr>deck_ref = 0, id_counter = 2\<rparr> 1
          ((\<lambda>r. None)(0 \<mapsto> [\<lparr>cid = Num 0, cvalue = Some ''2'', rank = 1, suit = None\<rparr>],
                        1 \<mapsto> [\<lparr>cid = Num 5, cvalue = Some ''3'', rank = 2, suit = None\<rparr>]))) = 1 \<and>
   snd (sort_in_place \<lparr>deck_ref = 0, id_counter = 2\<rparr> 1
          ((\<lambda>r. None)(0 \<mapsto> [\<lparr>cid = Num 0, cvalue = Some ''2'', rank = 1, suit = None\<rparr>],
                        1 \<mapsto> [\<lparr>cid = Num 5, cvalue = Some ''3'', rank = 2, suit = None\<rparr>]))) 0 =
     Some [\<lparr>cid = Num 0, cvalue = Some ''2'', rank = 1, suit = None\<rparr>]"
  using sort_in_place_frame
    [of "\<lparr>deck_ref = 0, id_counter = 2\<rparr>" 1
        "(\<lambda>r. None)(0 \<mapsto> [\<lparr>cid = Num 0, cvalue = Some ''2'', rank = 1, suit = None\<rparr>],
                      1 \<mapsto> [\<lparr>cid = Num 5, cvalue = Some ''3'', rank = 2, suit = None\<rparr>])"]
  by simp

subsection \<open>Copies of the catalog\<close>

lemma fst_alloc [simp]: "fst (alloc obj h) = allocated h"
  by (simp add: alloc_def)

lemma cells_alloc [simp]: "cells (snd (alloc obj h)) = (cells h)(allocated h \<mapsto> obj)"
  by (simp add: alloc_def)

lemma allocated_alloc [simp]: "allocated (snd (alloc obj h)) = Suc (allocated h)"
  by (simp add: alloc_def)

lemma wf_heap_alloc:
  "wf_heap h \<Longrightarrow> refs_of obj \<subseteq> {..<allocated h} \<Longrightarrow> wf_heap (snd (alloc obj h))"
  by (fastforce simp: wf_heap_def less_Suc_eq)

lemma wf_heap_fresh: "wf_heap h \<Longrightarrow> cells h (allocated h) = None"
  by (cases "cells h (allocated h)") (auto simp: wf_heap_def)

lemma wf_heap_below: "wf_heap h \<Longrightarrow> cells h a = Some obj \<Longrightarrow> a < allocated h"
  by (simp add: wf_heap_def)

lemma wf_heap_refs: "wf_heap h \<Longrightarrow> cells h a = Some obj \<Longrightarrow> p \<in> refs_of obj \<Longrightarrow> p < allocated h"
  by (auto simp: wf_heap_def)

lemma owned_alloc:
  assumes "owned h e" "suit_at e \<notin> refs_of obj"
  shows "owned (snd (alloc obj h)) e"
  using assms by (auto simp: owned_def)

lemma placed_ok_alloc:
  assumes "wf_heap h" "placed_ok hi h e" "suit_at e \<notin> refs_of obj"
  shows "placed_ok hi (snd (alloc obj h)) e"
proof -
  have "card_at e \<noteq> allocated h" "suit_at e \<noteq> allocated h"
    using assms(1,2) wf_heap_fresh[OF assms(1)] by (auto simp: placed_ok_def)
  then show ?thesis
    using assms(2) owned_alloc[OF _ assms(3)] by (simp add: placed_ok_def)
qed

lemma deck_inv_alloc:
  assumes inv: "deck_inv hi d h es"
    and refs: "refs_of obj \<subseteq> {..<allocated h}"
    and other: "\<forall>e \<in> set es. suit_at e \<notin> refs_of obj"
  shows "deck_inv hi d (snd (alloc obj h)) es"
proof -
  have wf: "wf_heap h" using inv by (simp add: deck_inv_def)
  have d: "d \<noteq> allocated h"
    using inv wf_heap_fresh[OF wf] by (auto simp: deck_inv_def)
  have old: "allocated hi \<le> allocated h"
    using inv wf_heap_below[OF wf, of d] by (auto simp: deck_inv_def)
  show ?thesis
    unfolding deck_inv_def
  proof (intro conjI)
    show "wf_heap (snd (alloc obj h))" by (rule wf_heap_alloc[OF wf refs])
    show "allocated hi \<le> d" using inv by (simp add: deck_inv_def)
    show "\<forall>a<allocated hi. cells (snd (alloc obj h)) a = cells hi a"
      using inv old by (simp add: deck_inv_def)
    show "cells (snd (alloc obj h)) d = Some (HArray (map (\<lambda>e. HRef (card_at e)) es))"
      using inv d by (simp add: deck_inv_def)
    show "distinct (d # map card_at es @ map suit_at es)" using inv by (simp add: deck_inv_def)
    show "\<forall>e\<in>set es. placed_ok hi (snd (alloc obj h)) e"
      using inv other placed_ok_alloc[OF wf] by (simp add: deck_inv_def)
  qed
qed

lemma alloc_each_refs:
  "fst (alloc_each objs h) = map (\<lambda>k. allocated h + k) [0..<length objs]"
proof (induction objs arbitrary: h)
  case Nil
  show ?case by simp
next
  case (Cons obj objs)
  have "map (\<lambda>k. allocated h + k) [0..<length (obj # objs)] =
      allocated h # map (\<lambda>k. Suc (allocated h) + k) [0..<length objs]"
    by (simp add: upt_rec[of 0] map_Suc_upt[symmetric] del: upt_Suc)
  then show ?case
    using Cons[of "snd (alloc obj h)"] by (simp add: split_beta)
qed

lemma allocated_alloc_each:
  "allocated (snd (alloc_each objs h)) = allocated h + length objs"
  by (induction objs arbitrary: h) (simp_all add: split_beta)

lemma cells_alloc_each:
  "cells (snd (alloc_each objs h)) a =
     (if allocated h \<le> a \<and> a < allocated h + length objs then Some (objs ! (a - allocated h))
      else cells h a)"
proof (induction objs arbitrary: h)
  case Nil
  show ?case by auto
next
  case (Cons obj objs)
  show ?case
    using Cons[of "snd (alloc obj h)"]
    by (auto simp: split_beta nth_Cons')
qed

lemma deck_inv_alloc_each:
  "deck_inv hi d h es \<Longrightarrow> \<forall>obj \<in> set objs. refs_of obj = {} \<Longrightarrow>
   deck_inv hi d (snd (alloc_each objs h)) es"
proof (induction objs arbitrary: h)
  case Nil
  then show ?case by simp
next
  case (Cons obj objs)
  have "deck_inv hi d (snd (alloc obj h)) es"
    using Cons.prems by (intro deck_inv_alloc) auto
  then show ?case
    using Cons.IH[of "snd (alloc obj h)"] Cons.prems(2) by (simp add: split_beta)
qed

lemma refs_of_suit_literal [simp]: "refs_of (suit_literal s) = {}"
  by (auto simp: refs_of_def suit_literal_def)

lemma refs_of_strings [simp]: "refs_of (HArray (map HString xs)) = {}"
  by (auto simp: refs_of_def)

lemma refs_of_refs [simp]: "refs_of (HArray (map HRef as)) = set as"
  by (auto simp: refs_of_def)

lemma deck_inv_below:
  assumes "deck_inv hi d h es" "e \<in> set es"
  shows "suit_at e < allocated h" "card_at e < allocated h"
  using assms wf_heap_below[of h] by (auto simp: deck_inv_def placed_ok_def)

lemma deck_inv_get_CARDS: "deck_inv hi d h es \<Longrightarrow> deck_inv hi d (snd (get_CARDS h)) es"
  unfolding get_CARDS_def by (rule deck_inv_alloc) simp_all

lemma elements_get_CARDS:
  "elements (snd (get_CARDS h)) (fst (get_CARDS h)) = map HString CARDS"
  by (simp add: get_CARDS_def elements_def)

lemma allocated_mono_alloc_each: "allocated h \<le> allocated (snd (alloc_each objs h))"
  by (simp add: allocated_alloc_each)

lemma deck_inv_get_SUITS:
  assumes "deck_inv hi d h es"
  shows "deck_inv hi d (snd (get_SUITS h)) es"
proof -
  let ?h1 = "snd (alloc_each (map suit_literal SUITS) h)"
  let ?refs = "fst (alloc_each (map suit_literal SUITS) h)"
  have inv1: "deck_inv hi d ?h1 es"
    using assms by (intro deck_inv_alloc_each) auto
  have refs: "set ?refs = {allocated h..<allocated ?h1}"
    by (auto simp: alloc_each_refs allocated_alloc_each)
  have "deck_inv hi d (snd (alloc (HArray (map HRef ?refs)) ?h1)) es"
  proof (rule deck_inv_alloc[OF inv1])
    show "refs_of (HArray (map HRef ?refs)) \<subseteq> {..<allocated ?h1}"
      using refs by auto
    have "\<forall>e\<in>set es. suit_at e < allocated h"
      using deck_inv_below(1)[OF assms] by blast
    then show "\<forall>e\<in>set es. suit_at e \<notin> refs_of (HArray (map HRef ?refs))"
      using refs by fastforce
  qed
  then show ?thesis by (simp add: get_SUITS_def split_beta)
qed

lemma length_elements_get_SUITS:
  "length (elements (snd (get_SUITS h)) (fst (get_SUITS h))) = length SUITS"
  by (simp add: get_SUITS_def split_beta elements_def alloc_each_refs)

lemma spread_get_SUITS:
  assumes "j < length SUITS"
  shows "HObject (spread (snd (get_SUITS h))
           (element_at (elements (snd (get_SUITS h)) (fst (get_SUITS h))) j)) =
         suit_literal (SUITS ! j)"
proof -
  let ?h1 = "snd (alloc_each (map suit_literal SUITS) h)"
  let ?refs = "fst (alloc_each (map suit_literal SUITS) h)"
  have el: "elements (snd (get_SUITS h)) (fst (get_SUITS h)) = map HRef ?refs"
    by (simp add: get_SUITS_def split_beta elements_def)
  have at: "element_at (map HRef ?refs) j = HRef (allocated h + j)"
    using assms by (simp add: element_at_def alloc_each_refs)
  have "allocated h + j \<noteq> allocated ?h1"
    using assms by (simp add: allocated_alloc_each)
  then have "cells (snd (get_SUITS h)) (allocated h + j) = Some (suit_literal (SUITS ! j))"
    using assms by (simp add: get_SUITS_def split_beta cells_alloc_each)
  then show ?thesis
    by (simp add: el at spread_def properties_def suit_literal_def)
qed

lemma refs_of_card_cell [simp]: "refs_of (card_cell n i s) = {s}"
  by (auto simp: refs_of_def card_cell_def)

lemma refs_of_snoc:
  "refs_of (HArray (xs @ [HRef c])) = insert c (refs_of (HArray xs))"
  by (auto simp: refs_of_def)

lemma refs_of_card_refs:
  "refs_of (HArray (map (\<lambda>e. HRef (card_at e)) es)) = card_at ` set es"
  by (auto simp: refs_of_def)

lemma deck_inv_place:
  assumes inv: "deck_inv hi d h es" and j: "j < 4" and i: "i < 13"
  shows "deck_inv hi d
           (push d (HRef (Suc (allocated h)))
              (snd (alloc (card_cell n i (allocated h))
                 (snd (alloc (suit_literal (SUITS ! j)) h)))))
           (es @ [\<lparr>id_no = n, suit_ix = j, label_ix = i, card_at = Suc (allocated h),
                    suit_at = allocated h\<rparr>])"
    (is "deck_inv hi d ?h6 (es @ [?e])")
proof -
  let ?s = "allocated h" and ?c = "Suc (allocated h)"
  let ?arr = "map (\<lambda>e. HRef (card_at e)) es"
  have wf: "wf_heap h" and hid: "allocated hi \<le> d"
    and old: "\<forall>a < allocated hi. cells h a = cells hi a"
    and arr: "cells h d = Some (HArray ?arr)"
    and dist: "distinct (d # map card_at es @ map suit_at es)"
    and ok: "\<forall>e \<in> set es. placed_ok hi h e"
    using inv by (simp_all add: deck_inv_def)
  have d: "d < ?s" using wf_heap_below[OF wf arr] .
  have below: "\<forall>e \<in> set es. card_at e < ?s \<and> suit_at e < ?s"
    using deck_inv_below[OF inv] by blast
  have cells6: "cells ?h6 =
      (cells h)(?s \<mapsto> suit_literal (SUITS ! j), ?c \<mapsto> card_cell n i ?s,
                d \<mapsto> HArray (?arr @ [HRef ?c]))"
    using d arr by (simp add: push_def elements_def)
  have alloc6: "allocated ?h6 = Suc (Suc ?s)"
    by (simp add: push_def)
  have wf6: "wf_heap ?h6"
    unfolding wf_heap_def
  proof (intro allI impI)
    fix a obj assume a: "cells ?h6 a = Some obj"
    consider "a = d" | "a = ?c" | "a = ?s" | "a \<noteq> d" "a \<noteq> ?c" "a \<noteq> ?s" by blast
    then show "a < allocated ?h6 \<and> refs_of obj \<subseteq> {..<allocated ?h6}"
    proof cases
      case 1
      then have "obj = HArray (?arr @ [HRef ?c])" using a by (simp add: cells6)
      then show ?thesis
        using 1 d below by (auto simp: alloc6 refs_of_snoc refs_of_card_refs less_Suc_eq)
    next
      case 2
      then have "obj = card_cell n i ?s" using a d by (simp add: cells6)
      then show ?thesis using 2 by (simp add: alloc6)
    next
      case 3
      then have "obj = suit_literal (SUITS ! j)" using a d by (simp add: cells6)
      then show ?thesis using 3 by (simp add: alloc6)
    next
      case 4
      then have "cells h a = Some obj" using a by (simp add: cells6)
      then show ?thesis
        using wf by (fastforce simp: wf_heap_def alloc6 less_Suc_eq)
    qed
  qed
  have old6: "\<forall>a < allocated hi. cells ?h6 a = cells hi a"
    using old hid d by (simp add: cells6)
  have arr6: "cells ?h6 d = Some (HArray (map (\<lambda>e. HRef (card_at e)) (es @ [?e])))"
    by (simp add: cells6)
  have dist6: "distinct (d # map card_at (es @ [?e]) @ map suit_at (es @ [?e]))"
    using dist d below by auto
  have own_new: "owned ?h6 ?e"
    unfolding owned_def
  proof (intro allI impI)
    fix a obj assume a: "cells ?h6 a = Some obj \<and> suit_at ?e \<in> refs_of obj"
    then have c: "cells ?h6 a = Some obj" and r: "?s \<in> refs_of obj" by simp_all
    show "a = card_at ?e"
    proof (rule ccontr)
      assume "a \<noteq> card_at ?e"
      then have ac: "a \<noteq> ?c" by simp
      consider "a = d" | "a = ?s" | "a \<noteq> d" "a \<noteq> ?s" by blast
      then show False
      proof cases
        case 1
        then have "obj = HArray (?arr @ [HRef ?c])" using c by (simp add: cells6)
        then show False using r below by (auto simp: refs_of_snoc refs_of_card_refs)
      next
        case 2
        then have "obj = suit_literal (SUITS ! j)" using c d by (simp add: cells6)
        then show False using r by simp
      next
        case 3
        then have "cells h a = Some obj" using c ac by (simp add: cells6)
        then show False using wf_heap_refs[OF wf _ r] by simp
      qed
    qed
  qed
  have ok_new: "placed_ok hi ?h6 ?e"
    using hid d i j own_new by (simp add: placed_ok_def cells6)
  have ok_old: "placed_ok hi ?h6 e" if e: "e \<in> set es" for e
  proof -
    have p: "placed_ok hi h e" using ok e by blast
    have ne: "card_at e \<noteq> d" "suit_at e \<noteq> d" "card_at e \<noteq> ?s" "card_at e \<noteq> ?c"
      "suit_at e \<noteq> ?s" "suit_at e \<noteq> ?c"
      using dist below e by auto
    have notcard: "suit_at e \<notin> card_at ` set es"
      using dist e by auto
    have "owned ?h6 e"
      unfolding owned_def
    proof (intro allI impI)
      fix a obj assume a: "cells ?h6 a = Some obj \<and> suit_at e \<in> refs_of obj"
      then have c: "cells ?h6 a = Some obj" and r: "suit_at e \<in> refs_of obj" by simp_all
      consider "a = d" | "a = ?c" | "a = ?s" | "a \<noteq> d" "a \<noteq> ?c" "a \<noteq> ?s" by blast
      then show "a = card_at e"
      proof cases
        case 1
        then have "obj = HArray (?arr @ [HRef ?c])" using c by (simp add: cells6)
        then show ?thesis using r ne notcard by (auto simp: refs_of_snoc refs_of_card_refs)
      next
        case 2
        then have "obj = card_cell n i ?s" using c d by (simp add: cells6)
        then show ?thesis using r ne by simp
      next
        case 3
        then have "obj = suit_literal (SUITS ! j)" using c d by (simp add: cells6)
        then show ?thesis using r by simp
      next
        case 4
        then have "cells h a = Some obj" using c by (simp add: cells6)
        then show ?thesis using p r by (auto simp: placed_ok_def owned_def)
      qed
    qed
    then show ?thesis using p ne by (simp add: placed_ok_def cells6)
  qed
  show ?thesis
    unfolding deck_inv_def
    using wf6 hid old6 arr6 dist6 ok_new ok_old by auto
qed

lemma length_CARDS [simp]: "length CARDS = 13"
  by (simp add: CARDS_def)

lemma length_SUITS [simp]: "length SUITS = 4"
  by (simp add: SUITS_def)

lemma fill_cards_heap_done:
  "fill_cards_heap j 13 this h = (this, snd (get_CARDS h))"
  by (subst fill_cards_heap.simps) (simp add: split_beta elements_get_CARDS)

lemma fill_cards_heap_step:
  assumes "i < 13" "j < 4"
  shows "fill_cards_heap j i this h =
     (let h3 = snd (get_SUITS (snd (get_CARDS (snd (get_CARDS h)))))
      in fill_cards_heap j (i + 1) (this\<lparr>id_counter := id_counter this + 1\<rparr>)
           (push (deck_ref this) (HRef (Suc (allocated h3)))
              (snd (alloc (card_cell (id_counter this) i (allocated h3))
                 (snd (alloc (suit_literal (SUITS ! j)) h3))))))"
proof -
  have v: "element_at (map HString CARDS) i = HString (CARDS ! i)"
    using assms(1) by (simp add: element_at_def)
  show ?thesis
    using assms
    by (subst fill_cards_heap.simps)
      (simp add: split_beta elements_get_CARDS spread_get_SUITS v card_cell_def Let_def)
qed

lemma fill_cards_heap_inv:
  assumes "deck_inv hi d h es" "deck_ref this = d" "j < 4" "i \<le> 13"
  shows "\<exists>h' es'. fill_cards_heap j i this h =
            (this\<lparr>id_counter := id_counter this + int (13 - i)\<rparr>, h') \<and>
          deck_inv hi d h' (es @ es') \<and>
          map proj es' = map (\<lambda>k. (id_counter this + int (k - i), j, k)) [i..<13]"
  using assms
proof (induction "13 - i" arbitrary: i this h es)
  case 0
  then have i: "i = 13" by simp
  have "deck_inv hi d (snd (get_CARDS h)) (es @ [])"
    using "0.prems"(1) by (simp add: deck_inv_get_CARDS)
  then show ?case
    unfolding i fill_cards_heap_done by (intro exI[of _ "snd (get_CARDS h)"] exI[of _ "[]"]) simp
next
  case (Suc m)
  then have i: "i < 13" and m: "m = 13 - (i + 1)" by simp_all
  let ?h3 = "snd (get_SUITS (snd (get_CARDS (snd (get_CARDS h)))))"
  let ?e = "\<lparr>id_no = id_counter this, suit_ix = j, label_ix = i, card_at = Suc (allocated ?h3),
             suit_at = allocated ?h3\<rparr>"
  let ?t1 = "this\<lparr>id_counter := id_counter this + 1\<rparr>"
  let ?h6 = "push d (HRef (Suc (allocated ?h3)))
          (snd (alloc (card_cell (id_counter this) i (allocated ?h3))
             (snd (alloc (suit_literal (SUITS ! j)) ?h3))))"
  have inv3: "deck_inv hi d ?h3 es"
    using Suc.prems(1) by (intro deck_inv_get_SUITS deck_inv_get_CARDS)
  have inv6: "deck_inv hi d ?h6 (es @ [?e])"
    by (rule deck_inv_place[OF inv3 Suc.prems(3) i])
  have step: "fill_cards_heap j i this h = fill_cards_heap j (i + 1) ?t1 ?h6"
    using fill_cards_heap_step[OF i Suc.prems(3), of this h] Suc.prems(2) by (simp add: Let_def)
  from Suc.hyps(1)[OF m inv6, of ?t1] Suc.prems(2,3) i
  obtain h' es' where r: "fill_cards_heap j (i + 1) ?t1 ?h6 =
            (?t1\<lparr>id_counter := id_counter ?t1 + int (13 - (i + 1))\<rparr>, h')"
    "deck_inv hi d h' ((es @ [?e]) @ es')"
    "map proj es' = map (\<lambda>k. (id_counter ?t1 + int (k - (i + 1)), j, k)) [i + 1..<13]"
    by auto
  have a: "fill_cards_heap j i this h = (this\<lparr>id_counter := id_counter this + int (13 - i)\<rparr>, h')"
    using step r(1) i by (simp add: Suc_diff_Suc)
  have "map (\<lambda>k. (id_counter ?t1 + int (k - (i + 1)), j, k)) [i + 1..<13] =
        map (\<lambda>k. (id_counter this + int (k - i), j, k)) [i + 1..<13]"
    by (rule map_cong) (auto simp: Suc_diff_le)
  then have c: "map proj (?e # es') = map (\<lambda>k. (id_counter this + int (k - i), j, k)) [i..<13]"
    using r(3) i by (simp add: upt_conv_Cons[of i] proj_def)
  show ?case
    using a r(2) c by (intro exI[of _ h'] exI[of _ "?e # es'"]) simp
qed

lemma fill_suits_heap_done:
  "fill_suits_heap 4 this h = (this, snd (get_SUITS h))"
  by (subst fill_suits_heap.simps) (simp add: split_beta length_elements_get_SUITS)

lemma fill_suits_heap_step:
  "j < 4 \<Longrightarrow> fill_suits_heap j this h =
     fill_suits_heap (j + 1) (fst (fill_cards_heap j 0 this (snd (get_SUITS h))))
       (snd (fill_cards_heap j 0 this (snd (get_SUITS h))))"
  by (subst fill_suits_heap.simps) (simp add: split_beta length_elements_get_SUITS)

lemma fill_suits_heap_inv:
  assumes "deck_inv hi d h es" "deck_ref this = d" "j \<le> 4"
  shows "\<exists>h' es'. fill_suits_heap j this h =
            (this\<lparr>id_counter := id_counter this + int (13 * (4 - j))\<rparr>, h') \<and>
          deck_inv hi d h' (es @ es') \<and>
          map proj es' =
            concat (map (\<lambda>j'. map (\<lambda>k. (id_counter this + int (13 * (j' - j) + k), j', k)) [0..<13])
                      [j..<4])"
  using assms
proof (induction "4 - j" arbitrary: j this h es)
  case 0
  then have j: "j = 4" by simp
  have "deck_inv hi d (snd (get_SUITS h)) (es @ [])"
    using "0.prems"(1) by (simp add: deck_inv_get_SUITS)
  then show ?case
    unfolding j fill_suits_heap_done by (intro exI[of _ "snd (get_SUITS h)"] exI[of _ "[]"]) simp
next
  case (Suc m)
  then have j: "j < 4" and m: "m = 4 - (j + 1)" by simp_all
  have inv1: "deck_inv hi d (snd (get_SUITS h)) es"
    using Suc.prems(1) by (rule deck_inv_get_SUITS)
  from fill_cards_heap_inv[OF inv1 Suc.prems(2) j, of 0]
  obtain h2 es1 where c: "fill_cards_heap j 0 this (snd (get_SUITS h)) =
            (this\<lparr>id_counter := id_counter this + 13\<rparr>, h2)"
    "deck_inv hi d h2 (es @ es1)"
    "map proj es1 = map (\<lambda>k. (id_counter this + int k, j, k)) [0..<13]"
    by auto
  let ?t1 = "this\<lparr>id_counter := id_counter this + 13\<rparr>"
  have step: "fill_suits_heap j this h = fill_suits_heap (j + 1) ?t1 h2"
    using fill_suits_heap_step[OF j, of this h] c(1) by simp
  from Suc.hyps(1)[OF m c(2), of ?t1] Suc.prems(2) j
  obtain h' es2 where r: "fill_suits_heap (j + 1) ?t1 h2 =
            (?t1\<lparr>id_counter := id_counter ?t1 + int (13 * (4 - (j + 1)))\<rparr>, h')"
    "deck_inv hi d h' ((es @ es1) @ es2)"
    "map proj es2 =
       concat (map (\<lambda>j'. map (\<lambda>k. (id_counter ?t1 + int (13 * (j' - (j + 1)) + k), j', k)) [0..<13])
                 [j + 1..<4])"
    by auto
  have a: "fill_suits_heap j this h =
      (this\<lparr>id_counter := id_counter this + int (13 * (4 - j))\<rparr>, h')"
  proof -
    have "13 + int (13 * (4 - (j + 1))) = int (13 * (4 - j))" using j by simp
    then show ?thesis using step r(1) by (simp add: add.assoc)
  qed
  have eq: "map (\<lambda>j'. map (\<lambda>k. (id_counter ?t1 + int (13 * (j' - (j + 1)) + k), j', k)) [0..<13])
          [j + 1..<4] =
        map (\<lambda>j'. map (\<lambda>k. (id_counter this + int (13 * (j' - j) + k), j', k)) [0..<13])
          [j + 1..<4]"
  proof (rule map_cong[OF refl])
    fix j' assume "j' \<in> set [j + 1..<4]"
    then have "13 + int (13 * (j' - (j + 1))) = int (13 * (j' - j))" by auto
    then show "map (\<lambda>k. (id_counter ?t1 + int (13 * (j' - (j + 1)) + k), j', k)) [0..<13] =
        map (\<lambda>k. (id_counter this + int (13 * (j' - j) + k), j', k)) [0..<13]"
      by (simp add: algebra_simps)
  qed
  have r3: "map proj es2 =
      concat (map (\<lambda>j'. map (\<lambda>k. (id_counter this + int (13 * (j' - j) + k), j', k)) [0..<13])
                [j + 1..<4])"
    using r(3) by (simp only: eq)
  have "[j..<4] = j # [j + 1..<4]"
    using j by (simp add: upt_conv_Cons)
  then have c2: "map proj (es1 @ es2) =
      concat (map (\<lambda>j'. map (\<lambda>k. (id_counter this + int (13 * (j' - j) + k), j', k)) [0..<13])
                [j..<4])"
    using r3 c(3) by simp
  show ?case
    using a r(2) c2 by (intro exI[of _ h'] exI[of _ "es1 @ es2"]) simp
qed

lemma card_value_catalog:
  assumes "map proj es =
      concat (map (\<lambda>j. map (\<lambda>k. (int (13 * j + k), j, k)) [0..<13]) [0..<4])"
  shows "map card_value es = catalog_order"
proof -
  have "map card_value es =
      map (\<lambda>(n, j, i). \<lparr>cid = Num n, cvalue = Some (CARDS ! i), rank = int i + 1,
                          suit = Some (SUITS ! j)\<rparr>) (map proj es)"
    by (simp add: card_value_def proj_def)
  also have "\<dots> = catalog_order"
    unfolding assms catalog_order_def by (simp add: map_concat comp_def)
  finally show ?thesis .
qed

lemma refs_of_shuffled:
  assumes "mset ys = mset (map (\<lambda>e. HRef (card_at e)) es)"
  shows "refs_of (HArray ys) = card_at ` set es"
proof -
  have "set ys = set (map (\<lambda>e. HRef (card_at e)) es)"
    using assms by (rule mset_eq_setD)
  then show ?thesis by (auto simp: refs_of_def)
qed

lemma new_Deck_heap_inv:
  assumes wf: "wf_heap hi" and perm: "\<And>xs. mset (shuffle xs) = mset xs"
  shows "\<exists>t h' es. new_Deck_heap shuffle preShuffle hi = (t, h') \<and>
          id_counter t = 52 \<and>
          deck_inv hi (allocated hi) h' es \<and>
          map card_value es = catalog_order \<and>
          allocated hi \<le> deck_ref t \<and>
          elements h' (deck_ref t) =
            (if preShuffle then shuffle (map (\<lambda>e. HRef (card_at e)) es)
             else map (\<lambda>e. HRef (card_at e)) es)"
proof -
  let ?d = "allocated hi"
  let ?h1 = "snd (alloc (HArray []) hi)"
  have inv1: "deck_inv hi ?d ?h1 []"
    using wf wf_heap_alloc[OF wf, of "HArray []"] by (simp add: deck_inv_def refs_of_def)
  from fill_suits_heap_inv[OF inv1, of "\<lparr>deck_ref = ?d, id_counter = 0\<rparr>" 0]
  obtain h2 es where f: "fill_suits_heap 0 \<lparr>deck_ref = ?d, id_counter = 0\<rparr> ?h1 =
      (\<lparr>deck_ref = ?d, id_counter = 52\<rparr>, h2)"
    "deck_inv hi ?d h2 es"
    "map proj es = concat (map (\<lambda>j. map (\<lambda>k. (int (13 * j + k), j, k)) [0..<13]) [0..<4])"
    by auto
  have cat: "map card_value es = catalog_order" by (rule card_value_catalog[OF f(3)])
  have arr: "elements h2 ?d = map (\<lambda>e. HRef (card_at e)) es"
    using f(2) by (simp add: deck_inv_def elements_def)
  show ?thesis
  proof (cases preShuffle)
    case False
    then have "new_Deck_heap shuffle preShuffle hi = (\<lparr>deck_ref = ?d, id_counter = 52\<rparr>, h2)"
      using f(1) by (simp add: new_Deck_heap_def split_beta)
    then show ?thesis using False f(2) cat arr by auto
  next
    case True
    let ?new = "HArray (shuffle (map (\<lambda>e. HRef (card_at e)) es))"
    let ?h3 = "snd (alloc ?new h2)"
    have n: "new_Deck_heap shuffle preShuffle hi =
        (\<lparr>deck_ref = allocated h2, id_counter = 52\<rparr>, ?h3)"
      using True f(1) arr by (simp add: new_Deck_heap_def split_beta)
    have refs: "refs_of ?new = card_at ` set es"
      by (rule refs_of_shuffled[OF perm])
    have below: "\<forall>e \<in> set es. card_at e < allocated h2"
      using deck_inv_below(2)[OF f(2)] by blast
    have nos: "\<forall>e \<in> set es. suit_at e \<notin> card_at ` set es"
      using f(2) by (auto simp: deck_inv_def)
    have inv3: "deck_inv hi ?d ?h3 es"
      using below nos by (intro deck_inv_alloc[OF f(2)]) (auto simp: refs)
    have le: "?d \<le> allocated h2"
      using f(2) wf_heap_below[of h2 ?d] by (auto simp: deck_inv_def)
    have "elements ?h3 (allocated h2) = shuffle (map (\<lambda>e. HRef (card_at e)) es)"
      by (simp add: elements_def)
    then show ?thesis
      using n True inv3 cat le by auto
  qed
qed

lemma suit_record_eq: "\<lparr>svalue = svalue s, color = color s, utf = utf s\<rparr> = s"
  by simp

lemma read_placed:
  assumes "placed_ok hi h e"
  shows "read_card h (HRef (card_at e)) = Some (card_value e)"
    and "suit_of h (HRef (card_at e)) = HRef (suit_at e)"
proof -
  have c: "cells h (card_at e) = Some (card_cell (id_no e) (label_ix e) (suit_at e))"
    and s: "cells h (suit_at e) = Some (suit_literal (SUITS ! suit_ix e))"
    using assms by (simp_all add: placed_ok_def)
  show so: "suit_of h (HRef (card_at e)) = HRef (suit_at e)"
    by (simp add: suit_of_def properties_def c card_cell_def)
  have rs: "read_suit h (HRef (suit_at e)) = Some (SUITS ! suit_ix e)"
    by (simp add: read_suit_def properties_def s suit_literal_def)
  show "read_card h (HRef (card_at e)) = Some (card_value e)"
    unfolding read_card_def so rs
    by (simp add: properties_def c card_cell_def card_value_def)
qed

lemma read_card_frame:
  assumes "c = HRef r" "suit_of h c = HRef s" "a \<noteq> r" "a \<noteq> s"
    and "cells h2 r = cells h r" "cells h2 s = cells h s"
  shows "read_card (h2\<lparr>cells := (cells h2)(a := x)\<rparr>) c = read_card h c"
proof -
  have so: "suit_of (h2\<lparr>cells := (cells h2)(a := x)\<rparr>) c = HRef s"
    using assms by (simp add: suit_of_def properties_def)
  have rs: "read_suit (h2\<lparr>cells := (cells h2)(a := x)\<rparr>) (HRef s) = read_suit h (HRef s)"
    using assms by (simp add: read_suit_def properties_def)
  show ?thesis
    unfolding read_card_def so rs assms(2)
    using assms by (simp add: properties_def)
qed

lemma wf_heap_alloc_each:
  "wf_heap h \<Longrightarrow> \<forall>obj \<in> set objs. refs_of obj = {} \<Longrightarrow> wf_heap (snd (alloc_each objs h))"
proof (induction objs arbitrary: h)
  case Nil
  then show ?case by simp
next
  case (Cons obj objs)
  have "wf_heap (snd (alloc obj h))"
    using Cons.prems by (intro wf_heap_alloc) auto
  then show ?case
    using Cons.IH[of "snd (alloc obj h)"] Cons.prems(2) by (simp add: split_beta)
qed

lemma fresh_copy_alloc:
  assumes "rd (snd (alloc obj h)) (allocated h) = v"
  shows "fresh_copy (alloc obj) rd v h"
  using assms by (simp add: fresh_copy_def split_beta)

lemma refs_of_text_literal [simp]:
  "refs_of (HObject (map (\<lambda>(k, t). (k, HString t)) tbl)) = {}"
  by (auto simp: refs_of_def)

lemma fresh_copy_CARDS:
  "fresh_copy get_CARDS elements (map HString CARDS) h"
  unfolding get_CARDS_def by (rule fresh_copy_alloc) (simp_all add: elements_def)

lemma fresh_copy_SUITS_COLOR:
  "fresh_copy get_SUITS_COLOR elements (map HString SUITS_COLOR) h"
  unfolding get_SUITS_COLOR_def by (rule fresh_copy_alloc) (simp_all add: elements_def)

lemma fresh_copy_SUITS_UTF:
  "fresh_copy get_SUITS_UTF elements (map HString SUITS_UTF) h"
  unfolding get_SUITS_UTF_def by (rule fresh_copy_alloc) (simp_all add: elements_def)

lemma fresh_copy_CARDS_TEXT:
  "fresh_copy get_CARDS_TEXT properties (map (\<lambda>(k, t). (k, HString t)) CARDS_TEXT) h"
  unfolding get_CARDS_TEXT_def
  by (rule fresh_copy_alloc) (simp_all add: properties_def text_literal_def)

lemma fresh_copy_SUITS_TEXT:
  "fresh_copy get_SUITS_TEXT properties (map (\<lambda>(k, t). (k, HString t)) SUITS_TEXT) h"
  unfolding get_SUITS_TEXT_def
  by (rule fresh_copy_alloc) (simp_all add: properties_def text_literal_def)

lemma get_SUITS_parts:
  "fst (get_SUITS h) = allocated h + 4"
  "allocated (snd (get_SUITS h)) = allocated h + 5"
  "elements (snd (get_SUITS h)) (fst (get_SUITS h)) = map (\<lambda>k. HRef (allocated h + k)) [0..<4]"
  "a < allocated h \<Longrightarrow> cells (snd (get_SUITS h)) a = cells h a"
  "k < 4 \<Longrightarrow> cells (snd (get_SUITS h)) (allocated h + k) = Some (suit_literal (SUITS ! k))"
  by (simp_all add: get_SUITS_def split_beta alloc_each_refs allocated_alloc_each elements_def
      cells_alloc_each)

lemma wf_heap_get_SUITS:
  assumes "wf_heap h"
  shows "wf_heap (snd (get_SUITS h))"
proof -
  let ?h1 = "snd (alloc_each (map suit_literal SUITS) h)"
  have refs: "set (fst (alloc_each (map suit_literal SUITS) h)) = {allocated h..<allocated ?h1}"
    by (auto simp: alloc_each_refs allocated_alloc_each)
  have "wf_heap ?h1" using assms by (intro wf_heap_alloc_each) auto
  then have "wf_heap (snd (alloc (HArray (map HRef (fst (alloc_each (map suit_literal SUITS) h)))) ?h1))"
    by (rule wf_heap_alloc) (use refs in auto)
  then show ?thesis by (simp add: get_SUITS_def split_beta)
qed

lemma read_suit_get_SUITS:
  assumes "k < 4"
  shows "read_suit (snd (get_SUITS h)) (HRef (allocated h + k)) = Some (SUITS ! k)"
  using get_SUITS_parts(5)[OF assms, of h]
  by (simp add: read_suit_def properties_def suit_literal_def)

lemma fresh_copy_SUITS:
  "fresh_copy get_SUITS (\<lambda>h r. map (read_suit h) (elements h r)) (map Some SUITS) h"
proof -
  have "map (read_suit (snd (get_SUITS h))) (map (\<lambda>k. HRef (allocated h + k)) [0..<4]) =
      map (\<lambda>k. Some (SUITS ! k)) [0..<4]"
    by (simp add: read_suit_get_SUITS)
  also have "\<dots> = map Some (map (\<lambda>k. SUITS ! k) [0..<length SUITS])"
    by simp
  also have "\<dots> = map Some SUITS"
    by (simp only: map_nth)
  finally have m: "map (read_suit (snd (get_SUITS h))) (map (\<lambda>k. HRef (allocated h + k)) [0..<4]) =
      map Some SUITS" .
  have el: "elements (snd (get_SUITS h)) (allocated h + 4) = map (\<lambda>k. HRef (allocated h + k)) [0..<4]"
    using get_SUITS_parts(3)[of h] by (simp only: get_SUITS_parts(1))
  show ?thesis
    using m by (simp add: fresh_copy_def split_beta get_SUITS_parts(1,2,4) el)
qed

lemma fresh_refs_SUITS:
  "fresh_refs h (snd (get_SUITS h)) (elements (snd (get_SUITS h)) (fst (get_SUITS h)))"
  by (simp add: fresh_refs_def get_SUITS_parts(2,3) distinct_map inj_on_def list_all_iff)

lemma deck_inv_cards:
  assumes inv: "deck_inv hi d h es" and cs: "mset cs = mset (map (\<lambda>e. HRef (card_at e)) es)"
  shows "mset (map (read_card h) cs) = mset (map Some (map card_value es))"
    and "mset (map (suit_of h) cs) = mset (map (\<lambda>e. HRef (suit_at e)) es)"
    and "fresh_refs hi h cs"
    and "fresh_refs hi h (map (suit_of h) cs)"
    and "set cs \<inter> set (map (suit_of h) cs) = {}"
    and "\<forall>c \<in> set cs. owns h c"
    and "\<forall>c \<in> set cs. \<exists>e \<in> set es. c = HRef (card_at e) \<and> suit_of h c = HRef (suit_at e)"
proof -
  let ?xs = "map (\<lambda>e. HRef (card_at e)) es"
  have ok: "\<forall>e \<in> set es. placed_ok hi h e" and dist: "distinct (d # map card_at es @ map suit_at es)"
    using inv by (simp_all add: deck_inv_def)
  have rd: "map (read_card h) ?xs = map Some (map card_value es)"
    using ok read_placed(1) by (auto simp: comp_def)
  have so: "map (suit_of h) ?xs = map (\<lambda>e. HRef (suit_at e)) es"
    using ok read_placed(2) by (auto simp: comp_def)
  have "mset (map (read_card h) cs) = mset (map (read_card h) ?xs)"
    using cs by (metis mset_map)
  then show "mset (map (read_card h) cs) = mset (map Some (map card_value es))"
    by (simp only: rd)
  have "mset (map (suit_of h) cs) = mset (map (suit_of h) ?xs)"
    using cs by (metis mset_map)
  then show ms: "mset (map (suit_of h) cs) = mset (map (\<lambda>e. HRef (suit_at e)) es)"
    by (simp only: so)
  have setcs: "set cs = (\<lambda>e. HRef (card_at e)) ` set es"
    using mset_eq_setD[OF cs] by simp
  have setss: "set (map (suit_of h) cs) = (\<lambda>e. HRef (suit_at e)) ` set es"
    using mset_eq_setD[OF ms] by simp
  have below: "\<forall>e \<in> set es. card_at e < allocated h \<and> suit_at e < allocated h"
    using deck_inv_below[OF inv] by blast
  have above: "\<forall>e \<in> set es. allocated hi \<le> card_at e \<and> allocated hi \<le> suit_at e"
    using ok by (simp add: placed_ok_def)
  have "distinct ?xs" using dist by (simp add: distinct_map inj_on_def)
  then have dcs: "distinct cs" using mset_eq_imp_distinct_iff[OF cs] by simp
  show "fresh_refs hi h cs"
    using dcs below above by (auto simp: fresh_refs_def list_all_iff setcs)
  have "distinct (map (\<lambda>e. HRef (suit_at e)) es)"
    using dist by (simp add: distinct_map inj_on_def)
  then have dss: "distinct (map (suit_of h) cs)" using mset_eq_imp_distinct_iff[OF ms] by simp
  show "fresh_refs hi h (map (suit_of h) cs)"
    unfolding fresh_refs_def list_all_iff setss using dss below above by auto
  show "set cs \<inter> set (map (suit_of h) cs) = {}"
    unfolding setss setcs using dist by auto
  show ex: "\<forall>c \<in> set cs. \<exists>e \<in> set es. c = HRef (card_at e) \<and> suit_of h c = HRef (suit_at e)"
    using ok read_placed(2) unfolding setcs by fastforce
  show "\<forall>c \<in> set cs. owns h c"
  proof
    fix c assume "c \<in> set cs"
    then obtain e where e: "e \<in> set es" "c = HRef (card_at e)" "suit_of h c = HRef (suit_at e)"
      using ex by blast
    then have "owned h e" using ok by (simp add: placed_ok_def)
    then show "owns h c" using e by (simp add: owns_def owned_def)
  qed
qed

lemma wf_heap_get:
  assumes "wf_heap h"
  shows "wf_heap (snd (get_CARDS h))" "wf_heap (snd (get_CARDS_TEXT h))"
    "wf_heap (snd (get_SUITS_COLOR h))" "wf_heap (snd (get_SUITS_UTF h))"
    "wf_heap (snd (get_SUITS_TEXT h))"
  using assms
  by (simp_all add: get_CARDS_def get_CARDS_TEXT_def get_SUITS_COLOR_def get_SUITS_UTF_def
      get_SUITS_TEXT_def text_literal_def wf_heap_alloc del: cells_alloc allocated_alloc)

lemma new_Deck_heap_cards:
  assumes wf: "wf_heap h" and perm: "\<And>xs. mset (shuffle xs) = mset xs"
    and n: "new_Deck_heap shuffle preShuffle h = (t, h')"
  shows "wf_heap h'" "\<forall>a < allocated h. cells h' a = cells h a"
    "mset (map (read_card h') (elements h' (deck_ref t))) = mset (map Some catalog_order)"
    "\<not> preShuffle \<Longrightarrow> map (read_card h') (elements h' (deck_ref t)) = map Some catalog_order"
    "fresh_refs h h' (elements h' (deck_ref t))"
    "fresh_refs h h' (map (suit_of h') (elements h' (deck_ref t)))"
    "set (elements h' (deck_ref t)) \<inter> set (map (suit_of h') (elements h' (deck_ref t))) = {}"
    "\<forall>c \<in> set (elements h' (deck_ref t)). owns h' c"
    "\<forall>c \<in> set (elements h' (deck_ref t)). \<forall>a x. HRef a \<noteq> c \<and> HRef a \<noteq> suit_of h' c \<longrightarrow>
        read_card (write_cell a x h') c = read_card h' c"
    "\<forall>c \<in> set (elements h' (deck_ref t)). \<forall>h'' a x.
        (\<forall>b < allocated h'. cells h'' b = cells h' b) \<and> allocated h' \<le> a \<longrightarrow>
        read_card (write_cell a x h'') c = read_card h' c"
proof -
  from new_Deck_heap_inv[OF wf perm, of preShuffle] n
  obtain es where inv: "deck_inv h (allocated h) h' es"
    and cat: "map card_value es = catalog_order"
    and el: "elements h' (deck_ref t) =
            (if preShuffle then shuffle (map (\<lambda>e. HRef (card_at e)) es)
             else map (\<lambda>e. HRef (card_at e)) es)"
    by auto
  let ?cs = "elements h' (deck_ref t)"
  have cs: "mset ?cs = mset (map (\<lambda>e. HRef (card_at e)) es)"
    using el perm by simp
  note facts = deck_inv_cards[OF inv cs]
  show "wf_heap h'" "\<forall>a < allocated h. cells h' a = cells h a"
    using inv by (simp_all add: deck_inv_def)
  show "mset (map (read_card h') ?cs) = mset (map Some catalog_order)"
    using facts(1) by (simp only: cat)
  show "map (read_card h') ?cs = map Some catalog_order" if "\<not> preShuffle"
  proof -
    have "\<forall>e \<in> set es. read_card h' (HRef (card_at e)) = Some (card_value e)"
      using inv read_placed(1) by (auto simp: deck_inv_def)
    then have "map (read_card h') (map (\<lambda>e. HRef (card_at e)) es) = map Some (map card_value es)"
      by (simp add: comp_def)
    then show ?thesis using that el by (simp only: cat if_False)
  qed
  show "fresh_refs h h' ?cs" "fresh_refs h h' (map (suit_of h') ?cs)"
    "set ?cs \<inter> set (map (suit_of h') ?cs) = {}" "\<forall>c \<in> set ?cs. owns h' c"
    by (rule facts)+
  have below: "\<forall>e \<in> set es. card_at e < allocated h' \<and> suit_at e < allocated h'"
    using deck_inv_below[OF inv] by blast
  show "\<forall>c \<in> set ?cs. \<forall>a x. HRef a \<noteq> c \<and> HRef a \<noteq> suit_of h' c \<longrightarrow>
        read_card (write_cell a x h') c = read_card h' c"
  proof (intro ballI allI impI)
    fix c a x assume c: "c \<in> set ?cs" and a: "HRef a \<noteq> c \<and> HRef a \<noteq> suit_of h' c"
    from bspec[OF facts(7) c] obtain e where e: "e \<in> set es" "c = HRef (card_at e)"
      "suit_of h' c = HRef (suit_at e)"
      by blast
    show "read_card (write_cell a x h') c = read_card h' c"
      unfolding write_cell_def using a e(2,3) by (intro read_card_frame[OF e(2,3)]) auto
  qed
  show "\<forall>c \<in> set ?cs. \<forall>h'' a x.
        (\<forall>b < allocated h'. cells h'' b = cells h' b) \<and> allocated h' \<le> a \<longrightarrow>
        read_card (write_cell a x h'') c = read_card h' c"
  proof (intro ballI allI impI)
    fix c and h'' :: heap and a x assume c: "c \<in> set ?cs"
      and a: "(\<forall>b < allocated h'. cells h'' b = cells h' b) \<and> allocated h' \<le> a"
    from bspec[OF facts(7) c] obtain e where e: "e \<in> set es" "c = HRef (card_at e)"
      "suit_of h' c = HRef (suit_at e)"
      by blast
    show "read_card (write_cell a x h'') c = read_card h' c"
      unfolding write_cell_def using a e(1) below by (intro read_card_frame[OF e(2,3)]) auto
  qed
qed

text \<open>
  Claim C9.  Each of the getters \<^verbatim>\<open>CARDS\<close>, \<^verbatim>\<open>CARDS_TEXT\<close>, \<^verbatim>\<open>SUITS\<close>, \<^verbatim>\<open>SUITS_COLOR\<close>, \<^verbatim>\<open>SUITS_UTF\<close> and
  \<^verbatim>\<open>SUITS_TEXT\<close> returns, in every heap, a new array or object with the contents of the catalog
  and writes no cell that was there; the suit records in the array of \<^verbatim>\<open>SUITS\<close> are new too.
  This holds in every heap, so also after any write to a value that an earlier access
  returned.  The constructor leaves a deck whose cards read as the 52 cards of the catalog;
  the card objects and their suit records are new and pairwise different, no cell but the
  card holds the address of its suit record, and a write to any other cell, so to whatever
  an access to the catalog returns, before or after, leaves every card as it is.
\<close>

theorem catalog_copies_fresh:
  "fresh_copy get_CARDS elements (map HString CARDS) h \<and>
   fresh_copy get_CARDS_TEXT properties (map (\<lambda>(k, t). (k, HString t)) CARDS_TEXT) h \<and>
   fresh_copy get_SUITS (\<lambda>h r. map (read_suit h) (elements h r)) (map Some SUITS) h \<and>
   fresh_refs h (snd (get_SUITS h)) (elements (snd (get_SUITS h)) (fst (get_SUITS h))) \<and>
   fresh_copy get_SUITS_COLOR elements (map HString SUITS_COLOR) h \<and>
   fresh_copy get_SUITS_UTF elements (map HString SUITS_UTF) h \<and>
   fresh_copy get_SUITS_TEXT properties (map (\<lambda>(k, t). (k, HString t)) SUITS_TEXT) h \<and>
   fresh_copy get_CARDS elements (map HString CARDS) (write_cell a x (snd (get_CARDS h))) \<and>
   fresh_copy get_CARDS_TEXT properties (map (\<lambda>(k, t). (k, HString t)) CARDS_TEXT)
     (write_cell a x (snd (get_CARDS_TEXT h))) \<and>
   fresh_copy get_SUITS (\<lambda>h r. map (read_suit h) (elements h r)) (map Some SUITS)
     (write_cell a x (snd (get_SUITS h))) \<and>
   fresh_copy get_SUITS_COLOR elements (map HString SUITS_COLOR)
     (write_cell a x (snd (get_SUITS_COLOR h))) \<and>
   fresh_copy get_SUITS_UTF elements (map HString SUITS_UTF)
     (write_cell a x (snd (get_SUITS_UTF h))) \<and>
   fresh_copy get_SUITS_TEXT properties (map (\<lambda>(k, t). (k, HString t)) SUITS_TEXT)
     (write_cell a x (snd (get_SUITS_TEXT h))) \<and>
   (wf_heap h \<longrightarrow>
      wf_heap (snd (get_CARDS h)) \<and> wf_heap (snd (get_CARDS_TEXT h)) \<and>
      wf_heap (snd (get_SUITS h)) \<and> wf_heap (snd (get_SUITS_COLOR h)) \<and>
      wf_heap (snd (get_SUITS_UTF h)) \<and> wf_heap (snd (get_SUITS_TEXT h))) \<and>
   (wf_heap h \<and> (\<forall>xs. mset (shuffle xs) = mset xs) \<longrightarrow>
      (case new_Deck_heap shuffle preShuffle h of
         (t, h') \<Rightarrow>
           wf_heap h' \<and>
           (\<forall>b < allocated h. cells h' b = cells h b) \<and>
           mset (map (read_card h') (elements h' (deck_ref t))) = mset (map Some catalog_order) \<and>
           (\<not> preShuffle \<longrightarrow>
              map (read_card h') (elements h' (deck_ref t)) = map Some catalog_order) \<and>
           fresh_refs h h' (elements h' (deck_ref t)) \<and>
           fresh_refs h h' (map (suit_of h') (elements h' (deck_ref t))) \<and>
           set (elements h' (deck_ref t)) \<inter> set (map (suit_of h') (elements h' (deck_ref t))) = {} \<and>
           (\<forall>c \<in> set (elements h' (deck_ref t)). owns h' c) \<and>
           (\<forall>c \<in> set (elements h' (deck_ref t)). \<forall>b y.
              HRef b \<noteq> c \<and> HRef b \<noteq> suit_of h' c \<longrightarrow>
              read_card (write_cell b y h') c = read_card h' c) \<and>
           (\<forall>c \<in> set (elements h' (deck_ref t)). \<forall>h'' b y.
              (\<forall>p < allocated h'. cells h'' p = cells h' p) \<and> allocated h' \<le> b \<longrightarrow>
              read_card (write_cell b y h'') c = read_card h' c)))"
proof -
  have getters: "fresh_copy get_CARDS elements (map HString CARDS) g"
    "fresh_copy get_CARDS_TEXT properties (map (\<lambda>(k, t). (k, HString t)) CARDS_TEXT) g"
    "fresh_copy get_SUITS (\<lambda>h r. map (read_suit h) (elements h r)) (map Some SUITS) g"
    "fresh_copy get_SUITS_COLOR elements (map HString SUITS_COLOR) g"
    "fresh_copy get_SUITS_UTF elements (map HString SUITS_UTF) g"
    "fresh_copy get_SUITS_TEXT properties (map (\<lambda>(k, t). (k, HString t)) SUITS_TEXT) g" for g
    by (rule fresh_copy_CARDS fresh_copy_CARDS_TEXT fresh_copy_SUITS fresh_copy_SUITS_COLOR
        fresh_copy_SUITS_UTF fresh_copy_SUITS_TEXT)+
  have wfs: "wf_heap h \<longrightarrow>
      wf_heap (snd (get_CARDS h)) \<and> wf_heap (snd (get_CARDS_TEXT h)) \<and>
      wf_heap (snd (get_SUITS h)) \<and> wf_heap (snd (get_SUITS_COLOR h)) \<and>
      wf_heap (snd (get_SUITS_UTF h)) \<and> wf_heap (snd (get_SUITS_TEXT h))"
    by (intro impI conjI wf_heap_get wf_heap_get_SUITS)
  have deck: "wf_heap h \<and> (\<forall>xs. mset (shuffle xs) = mset xs) \<longrightarrow>
      (case new_Deck_heap shuffle preShuffle h of
         (t, h') \<Rightarrow>
           wf_heap h' \<and>
           (\<forall>b < allocated h. cells h' b = cells h b) \<and>
           mset (map (read_card h') (elements h' (deck_ref t))) = mset (map Some catalog_order) \<and>
           (\<not> preShuffle \<longrightarrow>
              map (read_card h') (elements h' (deck_ref t)) = map Some catalog_order) \<and>
           fresh_refs h h' (elements h' (deck_ref t)) \<and>
           fresh_refs h h' (map (suit_of h') (elements h' (deck_ref t))) \<and>
           set (elements h' (deck_ref t)) \<inter> set (map (suit_of h') (elements h' (deck_ref t))) = {} \<and>
           (\<forall>c \<in> set (elements h' (deck_ref t)). owns h' c) \<and>
           (\<forall>c \<in> set (elements h' (deck_ref t)). \<forall>b y.
              HRef b \<noteq> c \<and> HRef b \<noteq> suit_of h' c \<longrightarrow>
              read_card (write_cell b y h') c = read_card h' c) \<and>
           (\<forall>c \<in> set (elements h' (deck_ref t)). \<forall>h'' b y.
              (\<forall>p < allocated h'. cells h'' p = cells h' p) \<and> allocated h' \<le> b \<longrightarrow>
              read_card (write_cell b y h'') c = read_card h' c))"
  proof
    assume a: "wf_heap h \<and> (\<forall>xs. mset (shuffle xs) = mset xs)"
    obtain t h' where n: "new_Deck_heap shuffle preShuffle h = (t, h')"
      by (cases "new_Deck_heap shuffle preShuffle h")
    have perm: "\<And>xs. mset (shuffle xs) = mset xs" using a by blast
    note f = new_Deck_heap_cards[OF conjunct1[OF a] perm n]
    show "case new_Deck_heap shuffle preShuffle h of
         (t, h') \<Rightarrow>
           wf_heap h' \<and>
           (\<forall>b < allocated h. cells h' b = cells h b) \<and>
           mset (map (read_card h') (elements h' (deck_ref t))) = mset (map Some catalog_order) \<and>
           (\<not> preShuffle \<longrightarrow>
              map (read_card h') (elements h' (deck_ref t)) = map Some catalog_order) \<and>
           fresh_refs h h' (elements h' (deck_ref t)) \<and>
           fresh_refs h h' (map (suit_of h') (elements h' (deck_ref t))) \<and>
           set (elements h' (deck_ref t)) \<inter> set (map (suit_of h') (elements h' (deck_ref t))) = {} \<and>
           (\<forall>c \<in> set (elements h' (deck_ref t)). owns h' c) \<and>
           (\<forall>c \<in> set (elements h' (deck_ref t)). \<forall>b y.
              HRef b \<noteq> c \<and> HRef b \<noteq> suit_of h' c \<longrightarrow>
              read_card (write_cell b y h') c = read_card h' c) \<and>
           (\<forall>c \<in> set (elements h' (deck_ref t)). \<forall>h'' b y.
              (\<forall>p < allocated h'. cells h'' p = cells h' p) \<and> allocated h' \<le> b \<longrightarrow>
              read_card (write_cell b y h'') c = read_card h' c)"
      unfolding n prod.case by (intro conjI impI f)
  qed
  show ?thesis
    by (intro conjI getters fresh_refs_SUITS wfs deck)
qed

theorem catalog_copies_fresh_witness:
  "wf_heap \<lparr>cells = (\<lambda>a. None), allocated = 0\<rparr> \<and>
   (\<forall>xs :: hval list. mset (rev xs) = mset xs) \<and>
   fresh_copy get_SUITS (\<lambda>h r. map (read_suit h) (elements h r)) (map Some SUITS)
     \<lparr>cells = (\<lambda>a. None), allocated = 0\<rparr> \<and>
   wf_heap (snd (new_Deck_heap rev True \<lparr>cells = (\<lambda>a. None), allocated = 0\<rparr>)) \<and>
   fresh_refs \<lparr>cells = (\<lambda>a. None), allocated = 0\<rparr>
     (snd (new_Deck_heap rev True \<lparr>cells = (\<lambda>a. None), allocated = 0\<rparr>))
     (map (suit_of (snd (new_Deck_heap rev True \<lparr>cells = (\<lambda>a. None), allocated = 0\<rparr>)))
        (elements (snd (new_Deck_heap rev True \<lparr>cells = (\<lambda>a. None), allocated = 0\<rparr>))
           (deck_ref (fst (new_Deck_heap rev True \<lparr>cells = (\<lambda>a. None), allocated = 0\<rparr>))))) \<and>
   mset (map (read_card (snd (new_Deck_heap rev True \<lparr>cells = (\<lambda>a. None), allocated = 0\<rparr>)))
        (elements (snd (new_Deck_heap rev True \<lparr>cells = (\<lambda>a. None), allocated = 0\<rparr>))
           (deck_ref (fst (new_Deck_heap rev True \<lparr>cells = (\<lambda>a. None), allocated = 0\<rparr>))))) =
     mset (map Some catalog_order)"
proof -
  have wf: "wf_heap \<lparr>cells = (\<lambda>a. None), allocated = 0\<rparr>"
    by (simp add: wf_heap_def)
  have perm: "\<forall>xs :: hval list. mset (rev xs) = mset xs"
    by simp
  from catalog_copies_fresh[of "\<lparr>cells = (\<lambda>a. None), allocated = 0\<rparr>" _ _ rev True] wf perm
  show ?thesis
    by (simp add: split_beta)
qed


end
